theory Spec2Isabelle
  imports Main
begin

section \<open>The chat client of the wiki agent\<close>

text \<open>
  The browser script defines one class, \<^verbatim>\<open>ChatApp\<close>. Its later version (the one with
  \<^verbatim>\<open>sessionId\<close> and \<^verbatim>\<open>addMessageWithCitations\<close>) is embedded here: the citation
  highlighter as functions on strings, the client as a record that is passed through
  \<^verbatim>\<open>sendMessage\<close>, the network as the outcome handed to the part of
  \<^verbatim>\<open>sendMessage\<close> that runs after the \<^verbatim>\<open>await\<close>.

  JavaScript strings are modelled as \<^typ>\<open>string\<close>, numbers that index them as
  \<^typ>\<open>int\<close> and \<^typ>\<open>nat\<close>. Following the data model of the service contract, a
  citation has a source and an excerpt, both strings, and an optional span; a response
  has an answer, a session identifier and possibly a list of citations. Of the page,
  the model keeps what the script reads or writes and a claim can observe: the value
  and the \<^verbatim>\<open>disabled\<close> flags of the controls, the display of the spinner, and the
  messages of the transcript with their class and content. Scrolling and the console
  are left out.
\<close>

subsection \<open>Data model\<close>

record span =
  span_start :: int
  span_end :: int

record citation =
  source :: string
  content :: string
  span :: "span option"

subsection \<open>String primitives of the host language\<close>

text \<open>\<^verbatim>\<open>s.substring(a, b)\<close>: both indices are clamped to the string and swapped when
  they come in the wrong order; \<^verbatim>\<open>s.substring(a)\<close> runs to the end of the string.\<close>

definition clampIndex :: "string \<Rightarrow> int \<Rightarrow> nat" where
  "clampIndex s i = nat (min (max i 0) (int (length s)))"

definition substring :: "string \<Rightarrow> int \<Rightarrow> int \<Rightarrow> string" where
  "substring s a b =
     (let from = min (clampIndex s a) (clampIndex s b);
          to = max (clampIndex s a) (clampIndex s b)
      in take (to - from) (drop from s))"

definition substringFrom :: "string \<Rightarrow> int \<Rightarrow> string" where
  "substringFrom s a = drop (clampIndex s a) s"

text \<open>\<^verbatim>\<open>s.split('/')\<close> always returns at least one piece, so \<^verbatim>\<open>pop()\<close> on it is the
  last piece.\<close>

fun splitOn :: "char \<Rightarrow> string \<Rightarrow> string list" where
  "splitOn sep [] = [[]]"
| "splitOn sep (c # cs) =
     (if c = sep then [] # splitOn sep cs
      else (case splitOn sep cs of
              [] \<Rightarrow> [[c]]
            | w # ws \<Rightarrow> (c # w) # ws))"

definition sourceFile :: "string \<Rightarrow> string" where
  "sourceFile src = last (splitOn (CHR ''/'') src)"

text \<open>A non-negative integer inside a template literal prints in decimal.\<close>

fun digits :: "nat \<Rightarrow> string" where
  "digits n =
     (if n < 10 then [''0123456789'' ! n]
      else digits (n div 10) @ [''0123456789'' ! (n mod 10)])"

declare digits.simps [simp del]

text \<open>\<^verbatim>\<open>Array.prototype.sort(cmp)\<close>. The language fixes the result only when \<^verbatim>\<open>cmp\<close> is a
  consistent comparator; for any other the order is left to the engine. The sort is
  modelled by what V8 (Chrome, Node) does on an array of fewer than 64 elements, where
  its merge sort comes down to one pass: \<^verbatim>\<open>CountAndMakeRun\<close> takes the longest run at the
  front of the array, a run being descending when the second element compares below the
  first, then continuing while each element compares below its predecessor, and
  otherwise continuing while no element compares below its predecessor; a descending
  run is reversed. \<^verbatim>\<open>BinaryInsertionSort\<close> then inserts each remaining element into the
  sorted part, at the place found by bisection. From 64 elements on the engine sorts
  runs of at least 32 elements in this way and merges them; the model applies the one
  pass at every length.\<close>

fun runLength :: "('a \<Rightarrow> 'a \<Rightarrow> int) \<Rightarrow> bool \<Rightarrow> 'a \<Rightarrow> 'a list \<Rightarrow> nat" where
  "runLength cmp isDescending previousElement [] = 0"
| "runLength cmp isDescending previousElement (currentElement # rest) =
     (let order = cmp currentElement previousElement in
      if (if isDescending then order \<ge> 0 else order < 0) then 0
      else Suc (runLength cmp isDescending currentElement rest))"

text \<open>The run, in sorted order, and the elements after it.\<close>

definition countAndMakeRun :: "('a \<Rightarrow> 'a \<Rightarrow> int) \<Rightarrow> 'a list \<Rightarrow> 'a list \<times> 'a list" where
  "countAndMakeRun cmp xs =
     (case xs of
        [] \<Rightarrow> ([], [])
      | [x] \<Rightarrow> ([x], [])
      | elementHigh # elementLow # rest \<Rightarrow>
          (let isDescending = cmp elementLow elementHigh < 0;
               n = 2 + runLength cmp isDescending elementLow rest
           in (if isDescending then rev (take n xs) else take n xs, drop n xs)))"

text \<open>The loop \<^verbatim>\<open>while (left < right)\<close> of the insertion: \<^verbatim>\<open>right = mid\<close> when the pivot
  compares below the middle element, \<^verbatim>\<open>left = mid + 1\<close> otherwise.\<close>

function binarySearch :: "('a \<Rightarrow> 'a \<Rightarrow> int) \<Rightarrow> 'a \<Rightarrow> 'a list \<Rightarrow> nat \<Rightarrow> nat \<Rightarrow> nat" where
  "binarySearch cmp pivot sortedPart left right =
     (if left < right
      then (let mid = left + (right - left) div 2 in
            if cmp pivot (sortedPart ! mid) < 0
            then binarySearch cmp pivot sortedPart left mid
            else binarySearch cmp pivot sortedPart (mid + 1) right)
      else left)"
  by pat_completeness auto
termination
  by (relation "measure (\<lambda>(cmp, pivot, sortedPart, left, right). right - left)") auto

declare binarySearch.simps [simp del]

definition binaryInsert :: "('a \<Rightarrow> 'a \<Rightarrow> int) \<Rightarrow> 'a list \<Rightarrow> 'a \<Rightarrow> 'a list" where
  "binaryInsert cmp sortedPart pivot =
     (let left = binarySearch cmp pivot sortedPart 0 (length sortedPart)
      in take left sortedPart @ pivot # drop left sortedPart)"

definition arraySort :: "('a \<Rightarrow> 'a \<Rightarrow> int) \<Rightarrow> 'a list \<Rightarrow> 'a list" where
  "arraySort cmp xs =
     (case countAndMakeRun cmp xs of (run, rest) \<Rightarrow> foldl (binaryInsert cmp) run rest)"

subsection \<open>The citation highlighter\<close>

text \<open>The comparator handed to \<^verbatim>\<open>sort\<close>: 0 as soon as one side has no span.\<close>

definition compareCitations :: "citation \<Rightarrow> citation \<Rightarrow> int" where
  "compareCitations a b =
     (case (span a, span b) of
        (Some sa, Some sb) \<Rightarrow> span_start sb - span_start sa
      | _ \<Rightarrow> 0)"

definition sortedCitations :: "citation list \<Rightarrow> citation list" where
  "sortedCitations citations = arraySort compareCitations citations"

text \<open>The guard of the splice, against the text as processed so far.\<close>

definition spanApplies :: "string \<Rightarrow> span \<Rightarrow> bool" where
  "spanApplies processedContent sp \<longleftrightarrow>
     span_start sp \<ge> 0 \<and> span_end sp > span_start sp
     \<and> span_end sp \<le> int (length processedContent)"

definition tooltipContent :: "citation \<Rightarrow> string" where
  \<open>tooltipContent c =
     ''Source: '' @ sourceFile (source c) @ ''<br>Excerpt: ''
       @ substring (content c) 0 100 @ ''...''\<close>

definition markOpen :: "nat \<Rightarrow> string" where
  \<open>markOpen index = ''<span class="highlighted-text" data-citation-id="'' @ digits index @ ''">''\<close>

definition markClose :: "citation \<Rightarrow> string" where
  \<open>markClose c = ''<span class="citation-tooltip">'' @ tooltipContent c @ ''</span></span>''\<close>

definition wrapSpan :: "string \<Rightarrow> nat \<Rightarrow> citation \<Rightarrow> span \<Rightarrow> string" where
  "wrapSpan processedContent index c sp =
     (let before = substring processedContent 0 (span_start sp);
          highlighted = substring processedContent (span_start sp) (span_end sp);
          after = substringFrom processedContent (span_end sp)
      in before @ markOpen index @ highlighted @ markClose c @ after)"

text \<open>The callback of \<^verbatim>\<open>sortedCitations.forEach\<close>; it assigns \<^verbatim>\<open>processedContent\<close>.\<close>

definition highlightCitation :: "string \<Rightarrow> nat \<times> citation \<Rightarrow> string" where
  "highlightCitation processedContent ic =
     (case span (snd ic) of
        None \<Rightarrow> processedContent
      | Some sp \<Rightarrow>
          if spanApplies processedContent sp
          then wrapSpan processedContent (fst ic) (snd ic) sp
          else processedContent)"

definition highlightAll :: "string \<Rightarrow> (nat \<times> citation) list \<Rightarrow> string" where
  "highlightAll processedContent ics = foldl highlightCitation processedContent ics"

definition processedContent :: "string \<Rightarrow> citation list \<Rightarrow> string" where
  "processedContent answer citations =
     highlightAll answer (enumerate 0 (sortedCitations citations))"

text \<open>The footer: \<^verbatim>\<open>citations.forEach\<close> over the list as received. \<open>citationsContainer\<close>
  is the markup that the script writes, the heading and then one fragment for each
  \<^verbatim>\<open>innerHTML +=\<close>. The browser parses the markup at each assignment and serialises the
  element again at the next read, so what \<^verbatim>\<open>innerHTML\<close> reads back afterwards is this string
  only as long as no file name holds an ampersand or an angle bracket; parsing is not
  modelled.\<close>

definition footerLine :: "nat \<times> citation \<Rightarrow> string" where
  \<open>footerLine ic = ''['' @ digits (fst ic + 1) @ ''] '' @ sourceFile (source (snd ic)) @ ''<br>''\<close>

definition citationsContainer :: "citation list \<Rightarrow> string" where
  \<open>citationsContainer citations =
     foldl (\<lambda>written ic. written @ footerLine ic) ''<strong>Sources:</strong><br>''
       (enumerate 0 citations)\<close>

text \<open>What a message element holds: text set through \<^verbatim>\<open>textContent\<close>, or markup set
  through \<^verbatim>\<open>innerHTML\<close> followed by the appended citations container.\<close>

datatype message_content =
    TextContent string
  | Highlighted string string

record message =
  className :: string
  messageContent :: message_content

definition renderCitations :: "string \<Rightarrow> citation list option \<Rightarrow> message_content" where
  "renderCitations text citations =
     (case citations of
        None \<Rightarrow> TextContent text
      | Some cs \<Rightarrow>
          if length cs > 0
          then Highlighted (processedContent text cs) (citationsContainer cs)
          else TextContent text)"

subsection \<open>The page and the client object\<close>

text \<open>The four elements the constructor looks up, with the properties the script reads
  or writes, and the children of the transcript element in document order.\<close>

record page =
  inputValue :: string
  inputDisabled :: bool
  sendDisabled :: bool
  loadingDisplay :: string
  chatMessages :: "message list"

text \<open>The values that the session identifier can take: what \<^verbatim>\<open>data.sessionId\<close> evaluates
  to is \<^verbatim>\<open>undefined\<close> when the parsed body has no such member, and the script stores it
  as it is.\<close>

datatype json_value = JUndefined | JNull | JString string

record chat_app = page +
  apiUrl :: "string option"
  sessionId :: json_value
  listening :: bool

text \<open>The constructor up to its call of \<^verbatim>\<open>init\<close>; for \<^verbatim>\<open>apiUrl\<close>, \<^verbatim>\<open>null\<close> is \<open>None\<close>.\<close>

definition newChatApp :: "page \<Rightarrow> chat_app" where
  "newChatApp p =
     \<lparr>inputValue = inputValue p, inputDisabled = inputDisabled p,
      sendDisabled = sendDisabled p, loadingDisplay = loadingDisplay p,
      chatMessages = chatMessages p,
      apiUrl = None, sessionId = JNull, listening = False\<rparr>"

definition addMessage :: "string \<Rightarrow> string \<Rightarrow> chat_app \<Rightarrow> chat_app" where
  "addMessage text type app =
     app\<lparr>chatMessages := chatMessages app @
       [\<lparr>className = ''message '' @ type @ ''-message'', messageContent = TextContent text\<rparr>]\<rparr>"

definition addMessageWithCitations ::
  "string \<Rightarrow> citation list option \<Rightarrow> chat_app \<Rightarrow> chat_app" where
  "addMessageWithCitations text citations app =
     app\<lparr>chatMessages := chatMessages app @
       [\<lparr>className = ''message bot-message'',
         messageContent = renderCitations text citations\<rparr>]\<rparr>"

definition setLoading :: "bool \<Rightarrow> chat_app \<Rightarrow> chat_app" where
  "setLoading isLoading app =
     app\<lparr>loadingDisplay := (if isLoading then ''flex'' else ''none''),
         inputDisabled := isLoading, sendDisabled := isLoading\<rparr>"

text \<open>\<^verbatim>\<open>init\<close>: the outcome of loading \<^verbatim>\<open>/config.json\<close> is \<open>None\<close> when the fetch or
  the parse fails, the configured \<^verbatim>\<open>apiUrl\<close> otherwise.\<close>

definition init :: "string option \<Rightarrow> chat_app \<Rightarrow> chat_app" where
  "init config app =
     (case config of
        Some url \<Rightarrow>
          app\<lparr>apiUrl := Some (url @ ''kb''), inputDisabled := False,
              sendDisabled := False, listening := True\<rparr>
      | None \<Rightarrow>
          addMessage ''Error loading configuration. Please refresh the page.'' ''bot'' app)"

subsection \<open>Requests and responses\<close>

text \<open>\<^verbatim>\<open>String.prototype.trim\<close> removes white space and line terminators at both ends;
  these are the ones among the characters of \<^typ>\<open>char\<close>.\<close>

definition isWhiteSpace :: "char \<Rightarrow> bool" where
  "isWhiteSpace c \<longleftrightarrow> c \<in> set [CHR 0x09, CHR 0x0A, CHR 0x0B, CHR 0x0C, CHR 0x0D, CHR 0x20, CHR 0xA0]"

definition trim :: "string \<Rightarrow> string" where
  "trim s = rev (dropWhile isWhiteSpace (rev (dropWhile isWhiteSpace s)))"

text \<open>\<^verbatim>\<open>JSON.stringify\<close> of an object literal whose properties are strings,
  \<^verbatim>\<open>null\<close> or \<^verbatim>\<open>undefined\<close>: the properties are written in order, except those whose
  value is \<^verbatim>\<open>undefined\<close>, which are left out.\<close>

definition hexDigit :: "nat \<Rightarrow> char" where
  "hexDigit n = ''0123456789abcdef'' ! (n mod 16)"

definition quoteChar :: "char \<Rightarrow> string" where
  \<open>quoteChar c =
     (if c = CHR 0x22 then [CHR 0x5C, CHR 0x22]
      else if c = CHR 0x5C then [CHR 0x5C, CHR 0x5C]
      else if c = CHR 0x08 then [CHR 0x5C, CHR ''b'']
      else if c = CHR 0x09 then [CHR 0x5C, CHR ''t'']
      else if c = CHR 0x0A then [CHR 0x5C, CHR ''n'']
      else if c = CHR 0x0C then [CHR 0x5C, CHR ''f'']
      else if c = CHR 0x0D then [CHR 0x5C, CHR ''r'']
      else if of_char c < (32 :: nat)
        then [CHR 0x5C, CHR ''u'', CHR ''0'', CHR ''0'',
              hexDigit (of_char c div 16), hexDigit (of_char c)]
      else [c])\<close>

definition quoteJSON :: "string \<Rightarrow> string" where
  "quoteJSON s = [CHR 0x22] @ concat (map quoteChar s) @ [CHR 0x22]"

definition stringifyValue :: "json_value \<Rightarrow> string option" where
  "stringifyValue v =
     (case v of JUndefined \<Rightarrow> None | JNull \<Rightarrow> Some ''null'' | JString s \<Rightarrow> Some (quoteJSON s))"

definition stringifyMember :: "string \<times> json_value \<Rightarrow> string option" where
  "stringifyMember kv =
     (case stringifyValue (snd kv) of
        None \<Rightarrow> None
      | Some written \<Rightarrow> Some (quoteJSON (fst kv) @ '':'' @ written))"

fun joinComma :: "string list \<Rightarrow> string" where
  "joinComma [] = []"
| "joinComma [x] = x"
| "joinComma (x # xs) = x @ '','' @ joinComma xs"

definition stringify :: "(string \<times> json_value) list \<Rightarrow> string" where
  "stringify members = ''{'' @ joinComma (List.map_filter stringifyMember members) @ ''}''"

record request =
  url :: "string option"
  httpMethod :: string
  headers :: "(string \<times> string) list"
  body :: string

text \<open>The parsed body of a successful response, as the script reads it: the answer,
  the citations when there are any, and the value of \<^verbatim>\<open>data.sessionId\<close>.\<close>

record response_data =
  response :: string
  citations :: "citation list option"
  dataSessionId :: json_value

text \<open>How a \<^verbatim>\<open>fetch\<close> settles: the promise rejects, or a response arrives with a status
  and a body that parses (\<open>Some\<close>) or does not.\<close>

datatype fetch_outcome =
    Rejected
  | Responded nat "response_data option"

definition responseOk :: "nat \<Rightarrow> bool" where
  "responseOk status \<longleftrightarrow> 200 \<le> status \<and> status \<le> 299"

subsection \<open>sendMessage\<close>

definition requestBody :: "string \<Rightarrow> json_value \<Rightarrow> string" where
  "requestBody message sid =
     stringify [(''prompt'', JString message), (''sessionId'', sid)]"

text \<open>The part of \<^verbatim>\<open>sendMessage\<close> that runs before the \<^verbatim>\<open>await\<close>: the client as it
  is while the request is in flight, and the request handed to \<^verbatim>\<open>fetch\<close>; \<open>None\<close>
  when the method returns first.\<close>

definition sendMessageSubmit :: "chat_app \<Rightarrow> chat_app \<times> request option" where
  "sendMessageSubmit app =
     (let message = trim (inputValue app) in
      if message = [] then (app, None)
      else
        (setLoading True ((addMessage message ''user'' app)\<lparr>inputValue := []\<rparr>),
         Some \<lparr>url = apiUrl app, httpMethod = ''POST'',
               headers = [(''Content-Type'', ''application/json'')],
               body = requestBody message (sessionId app)\<rparr>))"

text \<open>The rest of the \<^verbatim>\<open>try\<close> block, with \<open>None\<close> for a throw.\<close>

definition handleResponse :: "fetch_outcome \<Rightarrow> chat_app \<Rightarrow> chat_app option" where
  "handleResponse outcome app =
     (case outcome of
        Rejected \<Rightarrow> None
      | Responded status parsed \<Rightarrow>
          if \<not> responseOk status then None
          else (case parsed of
                  None \<Rightarrow> None
                | Some data \<Rightarrow>
                    Some (addMessageWithCitations (response data) (citations data)
                            (app\<lparr>sessionId := dataSessionId data\<rparr>))))"

text \<open>After the \<^verbatim>\<open>await\<close>: \<^verbatim>\<open>try\<close>, \<^verbatim>\<open>catch\<close>, \<^verbatim>\<open>finally\<close>.\<close>

definition sendMessageSettle :: "fetch_outcome \<Rightarrow> chat_app \<Rightarrow> chat_app" where
  "sendMessageSettle outcome app =
     setLoading False
       (case handleResponse outcome app of
          Some app' \<Rightarrow> app'
        | None \<Rightarrow> addMessage ''Sorry, I encountered an error. Please try again.'' ''bot'' app)"

text \<open>One call of \<^verbatim>\<open>sendMessage\<close> against a network that settles the request with
  \<open>network req\<close>; the requests issued are returned with the client.\<close>

definition sendMessage :: "(request \<Rightarrow> fetch_outcome) \<Rightarrow> chat_app \<Rightarrow> chat_app \<times> request list" where
  "sendMessage network app =
     (case sendMessageSubmit app of
        (app', None) \<Rightarrow> (app', [])
      | (app', Some req) \<Rightarrow> (sendMessageSettle (network req) app', [req]))"

text \<open>A conversation: at each turn the user types a text into the input and submits
  it, and the network settles the request with the given outcome.\<close>

fun conversation :: "chat_app \<Rightarrow> (string \<times> fetch_outcome) list \<Rightarrow> chat_app \<times> request list" where
  "conversation app [] = (app, [])"
| "conversation app ((typed, outcome) # turns) =
     (case sendMessage (\<lambda>req. outcome) (app\<lparr>inputValue := typed\<rparr>) of
        (app', reqs) \<Rightarrow>
          (case conversation app' turns of
             (app'', reqs') \<Rightarrow> (app'', reqs @ reqs')))"

section \<open>Notions used to state the properties\<close>

subsection \<open>Spans\<close>

definition hasSpan :: "citation \<Rightarrow> bool" where
  "hasSpan c \<longleftrightarrow> span c \<noteq> None"

definition startOf :: "citation \<Rightarrow> int" where
  "startOf c = (case span c of None \<Rightarrow> 0 | Some sp \<Rightarrow> span_start sp)"

definition endOf :: "citation \<Rightarrow> int" where
  "endOf c = (case span c of None \<Rightarrow> 0 | Some sp \<Rightarrow> span_end sp)"

text \<open>A citation carries a span that passes the test \<open>0 \<le> start < end \<le> length\<close>
  against the given text.\<close>

definition validIn :: "string \<Rightarrow> citation \<Rightarrow> bool" where
  "validIn text c = (case span c of None \<Rightarrow> False | Some sp \<Rightarrow> spanApplies text sp)"

definition degenerateSpan :: "citation \<Rightarrow> bool" where
  "degenerateSpan c = (case span c of None \<Rightarrow> False | Some sp \<Rightarrow> span_start sp = span_end sp)"

text \<open>Two spans do not overlap when one ends where or before the other starts; a
  citation without span overlaps nothing. A list is pairwise non-overlapping when
  \<open>sorted_wrt disjointSpans\<close> holds of it: the relation holds of the elements at any two
  different positions.\<close>

definition disjointSpans :: "citation \<Rightarrow> citation \<Rightarrow> bool" where
  "disjointSpans a b =
     (case (span a, span b) of
        (Some sa, Some sb) \<Rightarrow> span_end sa \<le> span_start sb \<or> span_end sb \<le> span_start sa
      | _ \<Rightarrow> True)"

subsection \<open>What a run of the highlighter marks\<close>

text \<open>The citations, with their index in the sorted array, whose callback took the
  splicing branch, in the order of processing; and the splice alone, without its
  guard.\<close>

fun inlineMarked :: "string \<Rightarrow> (nat \<times> citation) list \<Rightarrow> (nat \<times> citation) list" where
  "inlineMarked pc [] = []"
| "inlineMarked pc (ic # ics) =
     (if validIn pc (snd ic) then ic # inlineMarked (highlightCitation pc ic) ics
      else inlineMarked pc ics)"

definition spliceOf :: "string \<Rightarrow> nat \<times> citation \<Rightarrow> string" where
  "spliceOf pc ic =
     (case span (snd ic) of None \<Rightarrow> pc | Some sp \<Rightarrow> wrapSpan pc (fst ic) (snd ic) sp)"

text \<open>The answer text from position \<open>pos\<close> on, with every citation of a list in ascending
  order of position wrapped in its own marker.\<close>

fun layout :: "string \<Rightarrow> nat \<Rightarrow> (nat \<times> citation) list \<Rightarrow> string" where
  "layout text pos [] = drop pos text"
| "layout text pos (ic # rest) =
     take (nat (startOf (snd ic)) - pos) (drop pos text)
     @ markOpen (fst ic)
     @ take (nat (endOf (snd ic)) - nat (startOf (snd ic))) (drop (nat (startOf (snd ic))) text)
     @ markClose (snd ic)
     @ layout text (nat (endOf (snd ic))) rest"

subsection \<open>Removing the markup from the output string\<close>

text \<open>A reader of the output string that knows nothing of how it was built: it drops
  every tag, and the tooltip element with all it contains, and keeps the rest. It is
  the stripping function a test of the round trip would apply to the string.\<close>

datatype strip_mode = InText | InTag | InTooltip

definition tooltipOpen :: string where
  \<open>tooltipOpen = ''<span class="citation-tooltip">''\<close>

definition markEnd :: string where
  \<open>markEnd = ''</span></span>''\<close>

fun stripFrom :: "strip_mode \<Rightarrow> string \<Rightarrow> string" where
  "stripFrom m [] = []"
| "stripFrom InText (c # cs) =
     (if c = CHR ''<''
      then (if take (length tooltipOpen) (c # cs) = tooltipOpen
            then stripFrom InTooltip cs else stripFrom InTag cs)
      else c # stripFrom InText cs)"
| "stripFrom InTag (c # cs) =
     (if c = CHR ''>'' then stripFrom InText cs else stripFrom InTag cs)"
| "stripFrom InTooltip (c # cs) =
     (if take (length markEnd) (c # cs) = markEnd
      then stripFrom InText (drop 13 cs) else stripFrom InTooltip cs)"

definition stripTags :: "string \<Rightarrow> string" where
  "stripTags s = stripFrom InText s"

text \<open>Text without \<^verbatim>\<open><\<close> cannot be taken for markup; \<open>noClosing\<close> says that a string
  has no \<^verbatim>\<open></\<close> in it and does not end in \<^verbatim>\<open><\<close>.\<close>

definition cleanText :: "string \<Rightarrow> bool" where
  "cleanText s \<longleftrightarrow> CHR ''<'' \<notin> set s"

definition cleanCitation :: "citation \<Rightarrow> bool" where
  "cleanCitation c \<longleftrightarrow> cleanText (source c) \<and> cleanText (content c)"

fun noClosing :: "bool \<Rightarrow> string \<Rightarrow> bool" where
  "noClosing afterLt [] = (\<not> afterLt)"
| "noClosing afterLt (c # cs) =
     ((\<not> afterLt \<or> c \<noteq> CHR ''/'') \<and> noClosing (c = CHR ''<'') cs)"

subsection \<open>Comparators that order by a key\<close>

text \<open>On the set \<open>S\<close> the comparator is negative exactly when its first argument has the
  greater key: it asks for the keys in descending order.\<close>

definition byKey :: "('a \<Rightarrow> 'a \<Rightarrow> int) \<Rightarrow> ('a \<Rightarrow> int) \<Rightarrow> 'a set \<Rightarrow> bool" where
  "byKey cmp key S \<longleftrightarrow> (\<forall>a \<in> S. \<forall>b \<in> S. (cmp a b < 0) = (key b < key a))"

subsection \<open>A second sort\<close>

text \<open>Engines differ in how they sort. The top-down merge sort serves to check that
  what is observed of \<open>arraySort\<close> on a list with an inconsistent comparator is not an
  accident of that algorithm.\<close>

fun mergeBy :: "('a \<Rightarrow> 'a \<Rightarrow> int) \<Rightarrow> 'a list \<Rightarrow> 'a list \<Rightarrow> 'a list" where
  "mergeBy cmp [] ys = ys"
| "mergeBy cmp xs [] = xs"
| "mergeBy cmp (x # xs) (y # ys) =
     (if cmp x y \<le> 0 then x # mergeBy cmp xs (y # ys) else y # mergeBy cmp (x # xs) ys)"

function mergeSort :: "('a \<Rightarrow> 'a \<Rightarrow> int) \<Rightarrow> 'a list \<Rightarrow> 'a list" where
  "mergeSort cmp xs =
     (if length xs \<le> 1 then xs
      else mergeBy cmp (mergeSort cmp (take (length xs div 2) xs))
                       (mergeSort cmp (drop (length xs div 2) xs)))"
  by pat_completeness auto
termination
  by (relation "measure (\<lambda>p. length (snd p))") auto

declare mergeSort.simps [simp del]

subsection \<open>Transcript entries and outcomes\<close>

definition userMessage :: "string \<Rightarrow> message" where
  "userMessage text = \<lparr>className = ''message user-message'', messageContent = TextContent text\<rparr>"

definition apologyMessage :: message where
  "apologyMessage =
     \<lparr>className = ''message bot-message'',
      messageContent = TextContent ''Sorry, I encountered an error. Please try again.''\<rparr>"

text \<open>A round trip fails when the fetch rejects or the response is not 2xx.\<close>

definition requestFailed :: "fetch_outcome \<Rightarrow> bool" where
  "requestFailed outcome =
     (case outcome of Rejected \<Rightarrow> True | Responded status parsed \<Rightarrow> \<not> responseOk status)"

text \<open>A successful turn: what the user typed, the status and the parsed body.\<close>

definition toTurn :: "string \<times> nat \<times> response_data \<Rightarrow> string \<times> fetch_outcome" where
  "toTurn t = (fst t, Responded (fst (snd t)) (Some (snd (snd t))))"

definition goodTurn :: "string \<times> nat \<times> response_data \<Rightarrow> bool" where
  "goodTurn t \<longleftrightarrow> trim (fst t) \<noteq> [] \<and> responseOk (fst (snd t))"

subsection \<open>Concrete inputs\<close>

definition examplePage :: page where
  "examplePage = \<lparr>inputValue = [], inputDisabled = True, sendDisabled = True,
     loadingDisplay = ''none'', chatMessages = []\<rparr>"

definition exampleApp :: chat_app where
  "exampleApp = init (Some ''https://api.example/prod/'') (newChatApp examplePage)"

definition parisCitation :: citation where
  "parisCitation =
     \<lparr>source = ''docs/geo.txt'', content = ''Paris is France's capital city.'',
      span = Some \<lparr>span_start = 0, span_end = 5\<rparr>\<rparr>"

definition exampleTurns :: "(string \<times> nat \<times> response_data) list" where
  "exampleTurns =
     [(''What is the capital of France?'', 200,
       \<lparr>response = ''Paris is the capital.'', citations = Some [parisCitation],
        dataSessionId = JString ''abc123''\<rparr>),
      ('' And of Spain? '', 200,
       \<lparr>response = ''Madrid.'', citations = None, dataSessionId = JString ''abc123''\<rparr>)]"

definition twenty :: string where
  "twenty = ''0123456789abcdefghij''"

definition citeA :: citation where
  "citeA = \<lparr>source = ''docs/a.txt'', content = ''alpha'',
            span = Some \<lparr>span_start = 2, span_end = 5\<rparr>\<rparr>"

definition citeB :: citation where
  "citeB = \<lparr>source = ''docs/b.txt'', content = ''beta'',
            span = Some \<lparr>span_start = 10, span_end = 14\<rparr>\<rparr>"

definition citeN :: citation where
  "citeN = \<lparr>source = ''notes/n.txt'', content = ''nu'', span = None\<rparr>"

definition citeEmpty :: citation where
  "citeEmpty = \<lparr>source = ''docs/e.txt'', content = ''epsilon'',
                span = Some \<lparr>span_start = 7, span_end = 7\<rparr>\<rparr>"

definition citeWhole :: citation where
  "citeWhole = \<lparr>source = ''w.txt'', content = ''whole'',
                span = Some \<lparr>span_start = 0, span_end = 5\<rparr>\<rparr>"

definition citeLong :: citation where
  "citeLong = \<lparr>source = ''l.txt'', content = ''long'',
               span = Some \<lparr>span_start = 0, span_end = 50\<rparr>\<rparr>"

definition citeFar :: citation where
  "citeFar = \<lparr>source = ''f.txt'', content = ''far'',
              span = Some \<lparr>span_start = 16, span_end = 50\<rparr>\<rparr>"


section \<open>Properties of the client\<close>

lemma sendMessageSubmit_blank:
  "trim (inputValue app) = [] \<Longrightarrow> sendMessageSubmit app = (app, None)"
  by (simp add: sendMessageSubmit_def)

lemma sendMessageSubmit_nonblank:
  "trim (inputValue app) \<noteq> [] \<Longrightarrow>
   sendMessageSubmit app =
     (setLoading True ((addMessage (trim (inputValue app)) ''user'' app)\<lparr>inputValue := []\<rparr>),
      Some \<lparr>url = apiUrl app, httpMethod = ''POST'',
            headers = [(''Content-Type'', ''application/json'')],
            body = requestBody (trim (inputValue app)) (sessionId app)\<rparr>)"
  by (simp add: sendMessageSubmit_def Let_def)

lemma handleResponse_failed:
  "requestFailed outcome \<Longrightarrow> handleResponse outcome app = None"
  by (cases outcome) (simp_all add: requestFailed_def handleResponse_def)

lemma sendMessage_good:
  assumes "trim typed \<noteq> []" and "responseOk status"
  shows "\<exists>app' req.
           sendMessage (\<lambda>req. Responded status (Some d)) (app\<lparr>inputValue := typed\<rparr>) = (app', [req])
           \<and> body req = requestBody (trim typed) (sessionId app)
           \<and> sessionId app' = (dataSessionId d)"
  using assms
  by (simp add: sendMessage_def sendMessageSubmit_nonblank sendMessageSettle_def
      handleResponse_def setLoading_def addMessage_def addMessageWithCitations_def)

lemma requestBody_text:
  \<open>requestBody message sid =
     ''{"prompt":'' @ quoteJSON message
       @ (case sid of
            JUndefined \<Rightarrow> []
          | JNull \<Rightarrow> '',"sessionId":null''
          | JString s \<Rightarrow> '',"sessionId":'' @ quoteJSON s)
       @ ''}''\<close>
  by (cases sid)
     (simp_all add: requestBody_def stringify_def stringifyValue_def stringifyMember_def
        List.map_filter_simps quoteJSON_def quoteChar_def)

lemma exampleApp_fields:
  "sessionId exampleApp = JNull" "inputValue exampleApp = []"
  "chatMessages exampleApp = []"
  by (simp_all add: exampleApp_def init_def newChatApp_def examplePage_def)

lemma exampleTurns_good: "list_all goodTurn exampleTurns"
  by (simp add: exampleTurns_def goodTurn_def responseOk_def trim_def isWhiteSpace_def)

text \<open>
  C4. In a run of successful round trips the first request carries the session
  identifier the client holds at the start, and every later request carries the
  \<^verbatim>\<open>sessionId\<close> of the response just before it; after the run the client holds the
  one of the last response.
\<close>

theorem session_continuity:
  assumes "list_all goodTurn ts"
  shows "length (snd (conversation app (map toTurn ts))) = length ts
   \<and> (\<forall>i < length ts.
         body (snd (conversation app (map toTurn ts)) ! i) =
           requestBody (trim (fst (ts ! i)))
             (if i = 0 then sessionId app else (dataSessionId (snd (snd (ts ! (i - 1)))))))
   \<and> sessionId (fst (conversation app (map toTurn ts))) =
       (if ts = [] then sessionId app else (dataSessionId (snd (snd (last ts)))))"
  using assms
proof (induction ts arbitrary: app)
  case Nil
  then show ?case by simp
next
  case (Cons t ts)
  obtain typed status d where t: "t = (typed, status, d)" by (cases t) auto
  from Cons.prems have gt: "goodTurn t" and rest: "list_all goodTurn ts"
    by simp_all
  from gt t have good: "trim typed \<noteq> []" "responseOk status"
    by (simp_all add: goodTurn_def)
  from sendMessage_good [OF good, of d app] obtain app' req where
    sm: "sendMessage (\<lambda>req. Responded status (Some d)) (app\<lparr>inputValue := typed\<rparr>) = (app', [req])"
    and req: "body req = requestBody (trim typed) (sessionId app)"
    and sid: "sessionId app' = (dataSessionId d)" by blast
  obtain app'' reqs where conv: "conversation app' (map toTurn ts) = (app'', reqs)"
    by (cases "conversation app' (map toTurn ts)") auto
  have whole: "conversation app (map toTurn (t # ts)) = (app'', req # reqs)"
    by (simp add: t toTurn_def sm conv)
  from Cons.IH [OF rest, of app'] conv sid
  have len: "length reqs = length ts"
    and nth: "\<And>i. i < length ts \<Longrightarrow> body (reqs ! i) =
           requestBody (trim (fst (ts ! i)))
             (if i = 0 then (dataSessionId d)
              else (dataSessionId (snd (snd (ts ! (i - 1))))))"
    and fin: "sessionId app'' =
           (if ts = [] then (dataSessionId d)
            else (dataSessionId (snd (snd (last ts)))))"
    by simp_all
  have "body ((req # reqs) ! i) =
           requestBody (trim (fst ((t # ts) ! i)))
             (if i = 0 then sessionId app
              else (dataSessionId (snd (snd ((t # ts) ! (i - 1))))))"
    if "i < length (t # ts)" for i
  proof (cases i)
    case 0
    then show ?thesis by (simp add: req t)
  next
    case (Suc j)
    with that have "j < length ts" by simp
    from nth [OF this] Suc show ?thesis by (cases j) (simp_all add: t)
  qed
  then show ?case
    unfolding whole using len fin by (simp add: t)
qed

theorem session_continuity_witness:
  \<open>list_all goodTurn exampleTurns
   \<and> body (snd (conversation exampleApp (map toTurn exampleTurns)) ! 0) =
       ''{"prompt":"What is the capital of France?","sessionId":null}''
   \<and> body (snd (conversation exampleApp (map toTurn exampleTurns)) ! 1) =
       ''{"prompt":"And of Spain?","sessionId":"abc123"}''\<close>
proof -
  have len: "length exampleTurns = 2" by (simp add: exampleTurns_def)
  from session_continuity [OF exampleTurns_good, of exampleApp]
  have all: "\<forall>i < length exampleTurns.
         body (snd (conversation exampleApp (map toTurn exampleTurns)) ! i) =
           requestBody (trim (fst (exampleTurns ! i)))
             (if i = 0 then sessionId exampleApp
              else (dataSessionId (snd (snd (exampleTurns ! (i - 1))))))"
    by blast
  have t0: "trim (fst (exampleTurns ! 0)) = ''What is the capital of France?''"
    by (simp add: exampleTurns_def trim_def isWhiteSpace_def)
  have t1: "trim (fst (exampleTurns ! Suc 0)) = ''And of Spain?''"
    by (simp add: exampleTurns_def trim_def isWhiteSpace_def)
  have s0: "dataSessionId (snd (snd (exampleTurns ! 0))) = JString ''abc123''"
    by (simp add: exampleTurns_def)
  have q0: \<open>quoteJSON ''What is the capital of France?'' = ''"What is the capital of France?"''\<close>
    by (simp add: quoteJSON_def quoteChar_def)
  have q1: \<open>quoteJSON ''And of Spain?'' = ''"And of Spain?"''\<close>
    by (simp add: quoteJSON_def quoteChar_def)
  have q2: \<open>quoteJSON ''abc123'' = ''"abc123"''\<close>
    by (simp add: quoteJSON_def quoteChar_def)
  have r0: "body (snd (conversation exampleApp (map toTurn exampleTurns)) ! 0) =
       requestBody ''What is the capital of France?'' JNull"
    using all [rule_format, of 0] len by (simp add: t0 exampleApp_fields)
  have r1: "body (snd (conversation exampleApp (map toTurn exampleTurns)) ! 1) =
       requestBody ''And of Spain?'' (JString ''abc123'')"
    using all [rule_format, of 1] len by (simp add: t1 s0)
  show ?thesis
    unfolding r0 r1 using exampleTurns_good
    by (simp add: requestBody_text q0 q1 q2)
qed

text \<open>
  C7. A submission whose prompt is empty once trimmed returns before anything else
  happens: the client is unchanged (no user message, no loading state) and no request
  is handed to \<^verbatim>\<open>fetch\<close>.
\<close>

theorem empty_prompt_rejected:
  assumes "trim (inputValue app) = []"
  shows "sendMessageSubmit app = (app, None) \<and> sendMessage network app = (app, [])"
  using assms by (simp add: sendMessage_def sendMessageSubmit_blank)

theorem empty_prompt_rejected_witness:
  "trim (inputValue exampleApp) = []
   \<and> sendMessageSubmit exampleApp = (exampleApp, None)
   \<and> sendMessage (\<lambda>req. Rejected) exampleApp = (exampleApp, [])"
proof -
  have h: "trim (inputValue exampleApp) = []"
    by (simp add: exampleApp_fields trim_def)
  show ?thesis
    using h empty_prompt_rejected [OF h, of "\<lambda>req. Rejected"] by simp
qed

text \<open>
  C8. When the round trip fails (the fetch rejects, or the status is not 2xx) the code
  after the \<^verbatim>\<open>await\<close> appends the apology, and nothing else, to the transcript and
  leaves the input and the button enabled with the spinner hidden; seen over the whole
  call, the transcript grows by the user's message and the one apology.
\<close>

theorem failed_request_recovers:
  assumes "requestFailed outcome"
  shows "sendMessageSettle outcome app =
           app\<lparr>chatMessages := chatMessages app @ [apologyMessage],
               loadingDisplay := ''none'', inputDisabled := False, sendDisabled := False\<rparr>
         \<and> (trim (inputValue app) \<noteq> [] \<longrightarrow>
              fst (sendMessage (\<lambda>req. outcome) app) =
                app\<lparr>inputValue := [],
                    chatMessages := chatMessages app
                      @ [userMessage (trim (inputValue app)), apologyMessage],
                    loadingDisplay := ''none'', inputDisabled := False,
                    sendDisabled := False\<rparr>)"
  using assms
  by (simp add: sendMessageSettle_def handleResponse_failed sendMessage_def
      sendMessageSubmit_nonblank setLoading_def addMessage_def apologyMessage_def
      userMessage_def)

theorem failed_request_recovers_witness:
  "requestFailed (Responded 502 None)
   \<and> trim (inputValue (exampleApp\<lparr>inputValue := ''hello''\<rparr>)) \<noteq> []
   \<and> chatMessages (fst (sendMessage (\<lambda>req. Responded 502 None)
        (exampleApp\<lparr>inputValue := ''hello''\<rparr>))) = [userMessage ''hello'', apologyMessage]
   \<and> \<not> inputDisabled (fst (sendMessage (\<lambda>req. Responded 502 None)
        (exampleApp\<lparr>inputValue := ''hello''\<rparr>)))
   \<and> \<not> sendDisabled (fst (sendMessage (\<lambda>req. Responded 502 None)
        (exampleApp\<lparr>inputValue := ''hello''\<rparr>)))"
proof -
  have f: "requestFailed (Responded 502 None)"
    by (simp add: requestFailed_def responseOk_def)
  have t: "trim (inputValue (exampleApp\<lparr>inputValue := ''hello''\<rparr>)) = ''hello''"
    by (simp add: trim_def isWhiteSpace_def)
  show ?thesis
    using f t failed_request_recovers [OF f, of "exampleApp\<lparr>inputValue := ''hello''\<rparr>"]
    by (simp add: exampleApp_fields)
qed






section \<open>Properties of the citation highlighter\<close>

subsection \<open>The splice and the footer under their guards\<close>

lemma clampIndex_inside:
  "0 \<le> i \<Longrightarrow> i \<le> int (length xs) \<Longrightarrow> clampIndex xs i = nat i"
  by (simp add: clampIndex_def min_def max_def)

lemma substring_guarded:
  assumes "spanApplies pc sp"
  shows "substring pc 0 (span_start sp) = take (nat (span_start sp)) pc"
    and "substring pc (span_start sp) (span_end sp)
           = take (nat (span_end sp) - nat (span_start sp)) (drop (nat (span_start sp)) pc)"
    and "substringFrom pc (span_end sp) = drop (nat (span_end sp)) pc"
proof -
  from assms have s: "clampIndex pc (span_start sp) = nat (span_start sp)"
    and e: "clampIndex pc (span_end sp) = nat (span_end sp)"
    and z: "clampIndex pc 0 = 0"
    by (simp_all add: spanApplies_def clampIndex_inside)
  from assms have le: "nat (span_start sp) \<le> nat (span_end sp)"
    unfolding spanApplies_def by linarith
  show "substring pc 0 (span_start sp) = take (nat (span_start sp)) pc"
    by (simp add: substring_def s z Let_def)
  show "substring pc (span_start sp) (span_end sp)
           = take (nat (span_end sp) - nat (span_start sp)) (drop (nat (span_start sp)) pc)"
    using le by (simp add: substring_def s e min_def max_def Let_def)
  show "substringFrom pc (span_end sp) = drop (nat (span_end sp)) pc"
    by (simp add: substringFrom_def e)
qed

lemma wrapSpan_guarded:
  assumes "spanApplies pc sp"
  shows "wrapSpan pc i c sp =
           take (nat (span_start sp)) pc @ markOpen i
           @ take (nat (span_end sp) - nat (span_start sp)) (drop (nat (span_start sp)) pc)
           @ markClose c @ drop (nat (span_end sp)) pc"
  by (simp add: wrapSpan_def Let_def substring_guarded [OF assms])

lemma foldl_append_concat:
  "foldl (\<lambda>acc x. acc @ f x) acc0 xs = acc0 @ concat (map f xs)"
  by (induction xs arbitrary: acc0) simp_all

lemma map_enumerate_upt:
  "map f (enumerate n xs) = map (\<lambda>i. f (n + i, xs ! i)) [0..<length xs]"
  by (rule nth_equalityI) (simp_all add: nth_enumerate_eq)

lemma citationsContainer_lines:
  \<open>citationsContainer cs =
     ''<strong>Sources:</strong><br>'' @ concat (map footerLine (enumerate 0 cs))\<close>
  unfolding citationsContainer_def by (rule foldl_append_concat)

lemma highlightCitation_cases:
  "highlightCitation pc ic = (if validIn pc (snd ic) then spliceOf pc ic else pc)"
  by (simp add: highlightCitation_def validIn_def spliceOf_def split: option.splits)

lemma highlightCitation_degenerate:
  "degenerateSpan c \<Longrightarrow> highlightCitation pc (i, c) = pc"
  by (auto simp add: highlightCitation_def degenerateSpan_def spanApplies_def split: option.splits)

lemma foldl_skip_identity:
  assumes "\<And>acc x. P x \<Longrightarrow> f acc x = acc"
  shows "foldl f acc (filter (\<lambda>x. \<not> P x) xs) = foldl f acc xs"
  by (induction xs arbitrary: acc) (simp_all add: assms)

lemma highlightAll_skips_degenerate:
  "highlightAll text (filter (\<lambda>ic. \<not> degenerateSpan (snd ic)) ics) = highlightAll text ics"
  unfolding highlightAll_def
  by (rule foldl_skip_identity [where P = "\<lambda>ic. degenerateSpan (snd ic)"])
     (metis highlightCitation_degenerate prod.collapse)

lemma enumerate_split:
  assumes "k < length xs"
  shows "enumerate n xs =
           enumerate n (take k xs) @ (n + k, xs ! k) # enumerate (Suc (n + k)) (drop (Suc k) xs)"
proof -
  have "enumerate n xs = enumerate n (take k xs @ xs ! k # drop (Suc k) xs)"
    using assms by (simp add: id_take_nth_drop [symmetric])
  also have "\<dots> = enumerate n (take k xs) @ (n + k, xs ! k) # enumerate (Suc (n + k)) (drop (Suc k) xs)"
    using assms by (simp add: enumerate_append_eq min_def)
  finally show ?thesis .
qed

subsection \<open>The sort\<close>

lemma compareCitations_spans:
  "hasSpan a \<Longrightarrow> hasSpan b \<Longrightarrow> compareCitations a b = startOf b - startOf a"
  by (auto simp add: compareCitations_def hasSpan_def startOf_def)

lemma runLength_le: "runLength cmp d prev rest \<le> length rest"
  by (induction rest arbitrary: prev) (simp_all add: Let_def)

lemma countAndMakeRun_split:
  "\<exists>n. countAndMakeRun cmp xs = (take n xs, drop n xs)
     \<or> countAndMakeRun cmp xs = (rev (take n xs), drop n xs)"
proof (cases xs)
  case Nil
  then show ?thesis by (simp add: countAndMakeRun_def)
next
  case (Cons x0 ys)
  show ?thesis
  proof (cases ys)
    case Nil
    with Cons have "countAndMakeRun cmp xs = (take 1 xs, drop 1 xs)"
      by (simp add: countAndMakeRun_def)
    then show ?thesis by blast
  next
    case (Cons x1 rest)
    with \<open>xs = x0 # ys\<close> have xs: "xs = x0 # x1 # rest" by simp
    let ?n = "2 + runLength cmp (cmp x1 x0 < 0) x1 rest"
    have "countAndMakeRun cmp xs =
            (if cmp x1 x0 < 0 then rev (take ?n xs) else take ?n xs, drop ?n xs)"
      unfolding xs countAndMakeRun_def by (simp only: list.case Let_def)
    then show ?thesis by (cases "cmp x1 x0 < 0") auto
  qed
qed

lemma set_take_drop: "set (take n xs) \<union> set (drop n xs) = set xs"
  using set_append [of "take n xs" "drop n xs"] by simp

lemma countAndMakeRun_parts:
  assumes "countAndMakeRun cmp xs = (run, rest)"
  shows "set run \<union> set rest = set xs" and "length run + length rest = length xs"
proof -
  from countAndMakeRun_split [of cmp xs] assms obtain n where
    n: "(run = take n xs \<or> run = rev (take n xs)) \<and> rest = drop n xs" by auto
  then show "set run \<union> set rest = set xs"
    using set_take_drop [of n xs] by auto
  from n show "length run + length rest = length xs" by auto
qed

lemma set_binaryInsert: "set (binaryInsert cmp p x) = insert x (set p)"
  using set_take_drop [of "binarySearch cmp x p 0 (length p)" p]
  by (auto simp add: binaryInsert_def Let_def)


lemma set_foldl_binaryInsert:
  "set (foldl (binaryInsert cmp) run rest) = set rest \<union> set run"
  by (induction rest arbitrary: run) (auto simp add: set_binaryInsert)


lemma set_arraySort: "set (arraySort cmp xs) = set xs"
proof -
  obtain run rest where r: "countAndMakeRun cmp xs = (run, rest)"
    by (cases "countAndMakeRun cmp xs") auto
  from countAndMakeRun_parts(1) [OF r] show ?thesis
    by (auto simp add: arraySort_def r set_foldl_binaryInsert)
qed


text \<open>A symmetric relation that holds pairwise before sorting holds pairwise after.\<close>

lemma pairwise_middle:
  assumes "symp R"
  shows "sorted_wrt R (a @ x # b) \<longleftrightarrow> (\<forall>y \<in> set (a @ b). R x y) \<and> sorted_wrt R (a @ b)"
  using sympD [OF assms] by (auto simp add: sorted_wrt_append)

lemma pairwise_swap:
  assumes "symp R"
  shows "sorted_wrt R (b @ a) \<longleftrightarrow> sorted_wrt R (a @ b)"
  using sympD [OF assms] by (auto simp add: sorted_wrt_append)

lemma pairwise_rev:
  assumes "symp R"
  shows "sorted_wrt R (rev a) \<longleftrightarrow> sorted_wrt R a"
proof -
  from assms have "(\<lambda>x y. R y x) = R" by (auto simp add: fun_eq_iff dest: sympD)
  then show ?thesis by (simp add: sorted_wrt_rev)
qed

lemma pairwise_swap_rev:
  assumes "symp R"
  shows "sorted_wrt R (b @ rev a) \<longleftrightarrow> sorted_wrt R (a @ b)"
  using sympD [OF assms] by (auto simp add: sorted_wrt_append pairwise_rev [OF assms])

lemma pairwise_binaryInsert:
  assumes "symp R"
  shows "sorted_wrt R (binaryInsert cmp p x) \<longleftrightarrow> (\<forall>y \<in> set p. R x y) \<and> sorted_wrt R p"
  using pairwise_middle [OF assms, of "take (binarySearch cmp x p 0 (length p)) p" x
                                      "drop (binarySearch cmp x p 0 (length p)) p"]
  by (simp add: binaryInsert_def Let_def)

lemma pairwise_foldl_binaryInsert:
  assumes "symp R"
  shows "sorted_wrt R (foldl (binaryInsert cmp) run rest) \<longleftrightarrow> sorted_wrt R (rest @ run)"
proof (induction rest arbitrary: run)
  case Nil
  then show ?case by simp
next
  case (Cons x rest)
  have "sorted_wrt R (foldl (binaryInsert cmp) run (x # rest))
        \<longleftrightarrow> sorted_wrt R (rest @ binaryInsert cmp run x)"
    using Cons.IH by simp
  also have "\<dots> \<longleftrightarrow> sorted_wrt R (x # rest @ run)"
    using sympD [OF assms]
    by (auto simp add: sorted_wrt_append pairwise_binaryInsert [OF assms] set_binaryInsert)
  finally show ?case by simp
qed

lemma pairwise_arraySort:
  assumes "symp R"
  shows "sorted_wrt R (arraySort cmp xs) \<longleftrightarrow> sorted_wrt R xs"
proof -
  obtain run rest where r: "countAndMakeRun cmp xs = (run, rest)"
    by (cases "countAndMakeRun cmp xs") auto
  from countAndMakeRun_split [of cmp xs] r obtain n where
    n: "(run = take n xs \<or> run = rev (take n xs)) \<and> rest = drop n xs" by auto
  have "sorted_wrt R (rest @ run) \<longleftrightarrow> sorted_wrt R (take n xs @ drop n xs)"
    using n pairwise_swap [OF assms, of "drop n xs" "take n xs"]
      pairwise_swap_rev [OF assms, of "drop n xs" "take n xs"] by auto
  then show ?thesis
    by (simp add: arraySort_def r pairwise_foldl_binaryInsert [OF assms])
qed

text \<open>When the comparator orders by a key, the sort puts the keys in descending
  order.\<close>

lemma byKey_less: "byKey cmp key S \<Longrightarrow> a \<in> S \<Longrightarrow> b \<in> S \<Longrightarrow> (cmp a b < 0) = (key b < key a)"
  by (simp add: byKey_def)

lemma byKey_subset: "byKey cmp key S \<Longrightarrow> T \<subseteq> S \<Longrightarrow> byKey cmp key T"
  by (auto simp add: byKey_def)

lemma transp_descending: "transp (\<lambda>a b. key b \<le> (key a :: int))"
  by (auto simp add: transp_def)

lemma transp_ascending_strict: "transp (\<lambda>a b. key a < (key b :: int))"
  by (auto simp add: transp_def)

lemma run_not_descending:
  assumes "byKey cmp key S" and "prev \<in> S" and "set rest \<subseteq> S"
  shows "sorted_wrt (\<lambda>a b. key b \<le> key a) (prev # take (runLength cmp False prev rest) rest)"
  using assms(2,3)
proof (induction rest arbitrary: prev)
  case Nil
  then show ?case by simp
next
  case (Cons cur rest)
  then have cur: "cur \<in> S" and rest: "set rest \<subseteq> S" by simp_all
  show ?case
  proof (cases "cmp cur prev < 0")
    case True
    then show ?thesis by (simp add: Let_def)
  next
    case False
    with byKey_less [OF assms(1) cur Cons.prems(1)] have le: "key cur \<le> key prev" by simp
    from Cons.IH [OF cur rest]
    have "sorted_wrt (\<lambda>a b. key b \<le> key a)
            (prev # cur # take (runLength cmp False cur rest) rest)"
      using le by (simp only: sorted_wrt2 [OF transp_descending])
    with False show ?thesis by (simp add: Let_def)
  qed
qed

lemma run_descending:
  assumes "byKey cmp key S" and "prev \<in> S" and "set rest \<subseteq> S"
  shows "sorted_wrt (\<lambda>a b. key a < key b) (prev # take (runLength cmp True prev rest) rest)"
  using assms(2,3)
proof (induction rest arbitrary: prev)
  case Nil
  then show ?case by simp
next
  case (Cons cur rest)
  then have cur: "cur \<in> S" and rest: "set rest \<subseteq> S" by simp_all
  show ?case
  proof (cases "cmp cur prev \<ge> 0")
    case True
    then show ?thesis by (simp add: Let_def)
  next
    case False
    with byKey_less [OF assms(1) cur Cons.prems(1)] have lt: "key prev < key cur" by simp
    from Cons.IH [OF cur rest]
    have "sorted_wrt (\<lambda>a b. key a < key b)
            (prev # cur # take (runLength cmp True cur rest) rest)"
      using lt by (simp only: sorted_wrt2 [OF transp_ascending_strict])
    with False show ?thesis by (simp add: Let_def)
  qed
qed

lemma countAndMakeRun_sorted:
  assumes key: "byKey cmp key (set xs)"
    and r: "countAndMakeRun cmp xs = (run, rest)"
  shows "sorted_wrt (\<lambda>a b. key b \<le> key a) run"
proof (cases xs)
  case Nil
  with r show ?thesis by (simp add: countAndMakeRun_def)
next
  case (Cons x0 ys)
  show ?thesis
  proof (cases ys)
    case Nil
    with Cons r show ?thesis by (auto simp add: countAndMakeRun_def)
  next
    case (Cons x1 more)
    with \<open>xs = x0 # ys\<close> have xs: "xs = x0 # x1 # more" by simp
    then have mem: "x0 \<in> set xs" "x1 \<in> set xs" "set more \<subseteq> set xs" by auto
    show ?thesis
    proof (cases "cmp x1 x0 < 0")
      case True
      with byKey_less [OF key mem(2) mem(1)] have "key x0 < key x1" by simp
      with run_descending [OF key mem(2) mem(3)]
      have "sorted_wrt (\<lambda>a b. key a < key b)
              (x0 # x1 # take (runLength cmp True x1 more) more)"
        by (simp only: sorted_wrt2 [OF transp_ascending_strict])
      then have "sorted_wrt (\<lambda>a b. key b < key a)
              (rev (x0 # x1 # take (runLength cmp True x1 more) more))"
        by (simp only: sorted_wrt_rev)
      then have "sorted_wrt (\<lambda>a b. key b \<le> key a)
              (rev (x0 # x1 # take (runLength cmp True x1 more) more))"
        by (rule sorted_wrt_mono_rel [rotated]) simp
      moreover from True r
      have "run = rev (x0 # x1 # take (runLength cmp True x1 more) more)"
        by (simp add: countAndMakeRun_def xs Let_def)
      ultimately show ?thesis by simp
    next
      case False
      with byKey_less [OF key mem(2) mem(1)] have "key x1 \<le> key x0" by simp
      with run_not_descending [OF key mem(2) mem(3)]
      have "sorted_wrt (\<lambda>a b. key b \<le> key a)
              (x0 # x1 # take (runLength cmp False x1 more) more)"
        by (simp only: sorted_wrt2 [OF transp_descending])
      moreover from False r
      have "run = x0 # x1 # take (runLength cmp False x1 more) more"
        by (simp add: countAndMakeRun_def xs Let_def)
      ultimately show ?thesis by simp
    qed
  qed
qed

text \<open>The binary search stops at the place where the elements before have a key at least
  that of the pivot and the elements from there on a smaller one.\<close>

lemma descending_nth:
  assumes "sorted_wrt (\<lambda>a b. key b \<le> (key a :: int)) p" and "i \<le> j" and "j < length p"
  shows "key (p ! j) \<le> key (p ! i)"
proof (cases "i = j")
  case True
  then show ?thesis by simp
next
  case False
  with assms(2) have "i < j" by simp
  from sorted_wrt_nth_less [OF assms(1) this assms(3)] show ?thesis .
qed

lemma binarySearch_partition:
  assumes "sorted_wrt (\<lambda>a b. key b \<le> key a) p"
    and "byKey cmp key (insert pivot (set p))"
    and "left \<le> right" and "right \<le> length p"
    and "\<forall>i < left. key pivot \<le> key (p ! i)"
    and "\<forall>i. right \<le> i \<and> i < length p \<longrightarrow> key (p ! i) < key pivot"
  shows "binarySearch cmp pivot p left right \<le> length p
    \<and> (\<forall>i < binarySearch cmp pivot p left right. key pivot \<le> key (p ! i))
    \<and> (\<forall>i. binarySearch cmp pivot p left right \<le> i \<and> i < length p
            \<longrightarrow> key (p ! i) < key pivot)"
  using assms
proof (induction cmp pivot p left right rule: binarySearch.induct)
  case (1 cmp pivot p left right)
  note sorted = "1.prems"(1) and key = "1.prems"(2) and bounds = "1.prems"(3,4)
    and below = "1.prems"(5) and above = "1.prems"(6)
  show ?case
  proof (cases "left < right")
    case False
    with bounds have eq: "left = right" by simp
    have "binarySearch cmp pivot p left right = left"
      using False by (simp add: binarySearch.simps [of cmp pivot p left right])
    with bounds below above eq show ?thesis by simp
  next
    case True
    define mid where "mid = left + (right - left) div 2"
    from True bounds have mid: "left \<le> mid" "mid < right" "mid < length p"
      by (simp_all add: mid_def)
    then have mem: "p ! mid \<in> insert pivot (set p)" by simp
    show ?thesis
    proof (cases "cmp pivot (p ! mid) < 0")
      case less: True
      have step: "binarySearch cmp pivot p left right = binarySearch cmp pivot p left mid"
        using True less
        by (simp add: binarySearch.simps [of cmp pivot p left right] Let_def mid_def)
      from byKey_less [OF key _ mem, of pivot] less
      have small: "key (p ! mid) < key pivot" by simp
      have above': "\<forall>i. mid \<le> i \<and> i < length p \<longrightarrow> key (p ! i) < key pivot"
      proof (intro allI impI)
        fix i assume "mid \<le> i \<and> i < length p"
        then have "key (p ! i) \<le> key (p ! mid)" using descending_nth [OF sorted] by blast
        with small show "key (p ! i) < key pivot" by simp
      qed
      from mid have b: "left \<le> mid" "mid \<le> length p" by simp_all
      from "1.IH"(1) [OF True mid_def less sorted key b below above']
      show ?thesis unfolding step .
    next
      case geq: False
      have step: "binarySearch cmp pivot p left right
                    = binarySearch cmp pivot p (mid + 1) right"
        using True geq
        by (simp add: binarySearch.simps [of cmp pivot p left right] Let_def mid_def)
      from byKey_less [OF key _ mem, of pivot] geq
      have big: "key pivot \<le> key (p ! mid)" by simp
      have below': "\<forall>i < mid + 1. key pivot \<le> key (p ! i)"
      proof (intro allI impI)
        fix i assume "i < mid + 1"
        then have "i \<le> mid" by simp
        from descending_nth [OF sorted this mid(3)] big
        show "key pivot \<le> key (p ! i)" by simp
      qed
      from mid bounds have b: "mid + 1 \<le> right" "right \<le> length p" by simp_all
      from "1.IH"(2) [OF True mid_def geq sorted key b below' above]
      show ?thesis unfolding step .
    qed
  qed
qed

lemma descending_binaryInsert:
  assumes sorted: "sorted_wrt (\<lambda>a b. key b \<le> key a) p"
    and key: "byKey cmp key (insert pivot (set p))"
  shows "sorted_wrt (\<lambda>a b. key b \<le> key a) (binaryInsert cmp p pivot)"
proof -
  define k where "k = binarySearch cmp pivot p 0 (length p)"
  from binarySearch_partition [OF sorted key, of 0 "length p"]
  have k: "k \<le> length p" "\<forall>i < k. key pivot \<le> key (p ! i)"
    "\<forall>i. k \<le> i \<and> i < length p \<longrightarrow> key (p ! i) < key pivot"
    by (simp_all add: k_def)
  have before: "\<forall>x \<in> set (take k p). key pivot \<le> key x"
  proof
    fix x assume "x \<in> set (take k p)"
    then obtain i where "i < length (take k p)" "take k p ! i = x"
      by (auto simp add: in_set_conv_nth)
    with k(1,2) show "key pivot \<le> key x" by auto
  qed
  have after: "\<forall>x \<in> set (drop k p). key x \<le> key pivot"
  proof
    fix x assume "x \<in> set (drop k p)"
    then obtain i where i: "i < length (drop k p)" "drop k p ! i = x"
      by (auto simp add: in_set_conv_nth)
    then have "k + i < length p" "p ! (k + i) = x" using k(1) by simp_all
    with k(3) have "key x < key pivot" by auto
    then show "key x \<le> key pivot" by simp
  qed
  from sorted have "sorted_wrt (\<lambda>a b. key b \<le> key a) (take k p @ drop k p)" by simp
  with before after
  have "sorted_wrt (\<lambda>a b. key b \<le> key a) (take k p @ pivot # drop k p)"
    by (simp only: sorted_wrt_append sorted_wrt.simps) auto
  then show ?thesis by (simp add: binaryInsert_def Let_def k_def)
qed

lemma descending_foldl_binaryInsert:
  assumes "sorted_wrt (\<lambda>a b. key b \<le> key a) run"
    and "byKey cmp key (set rest \<union> set run)"
  shows "sorted_wrt (\<lambda>a b. key b \<le> key a) (foldl (binaryInsert cmp) run rest)"
  using assms
proof (induction rest arbitrary: run)
  case Nil
  then show ?case by simp
next
  case (Cons x rest)
  from Cons.prems(2) have "byKey cmp key (insert x (set run))"
    by (rule byKey_subset) auto
  from descending_binaryInsert [OF Cons.prems(1) this]
  have s: "sorted_wrt (\<lambda>a b. key b \<le> key a) (binaryInsert cmp run x)" .
  from Cons.prems(2) have "byKey cmp key (set rest \<union> set (binaryInsert cmp run x))"
    by (rule byKey_subset) (auto simp add: set_binaryInsert)
  from Cons.IH [OF s this] show ?case by simp
qed

lemma descending_arraySort:
  assumes "byKey cmp key (set xs)"
  shows "sorted_wrt (\<lambda>a b. key b \<le> key a) (arraySort cmp xs)"
proof -
  obtain run rest where r: "countAndMakeRun cmp xs = (run, rest)"
    by (cases "countAndMakeRun cmp xs") auto
  from countAndMakeRun_parts(1) [OF r] assms have "byKey cmp key (set rest \<union> set run)"
    by (simp add: Un_commute)
  from descending_foldl_binaryInsert [OF countAndMakeRun_sorted [OF assms r] this]
  show ?thesis by (simp add: arraySort_def r)
qed

text \<open>When every citation has a span the comparator is the difference of the starts,
  and the sort puts the starts in descending order.\<close>

lemma byKey_compareCitations:
  assumes "\<forall>c \<in> set cs. hasSpan c"
  shows "byKey compareCitations startOf (set cs)"
  unfolding byKey_def
proof (intro ballI)
  fix a b assume "a \<in> set cs" "b \<in> set cs"
  with assms have "hasSpan a" "hasSpan b" by simp_all
  then show "(compareCitations a b < 0) = (startOf b < startOf a)"
    by (simp add: compareCitations_spans)
qed

lemma sortedCitations_descending:
  assumes "\<forall>c \<in> set cs. hasSpan c"
  shows "sorted_wrt (\<lambda>a b. startOf b \<le> startOf a) (sortedCitations cs)"
  unfolding sortedCitations_def
  by (rule descending_arraySort [OF byKey_compareCitations [OF assms]])

lemma set_sortedCitations: "set (sortedCitations cs) = set cs"
  by (simp add: sortedCitations_def set_arraySort)


lemma symp_disjointSpans: "symp disjointSpans"
  by (auto simp add: symp_def disjointSpans_def split: option.splits)

lemma disjointSpans_spans:
  "hasSpan a \<Longrightarrow> hasSpan b \<Longrightarrow>
   disjointSpans a b \<longleftrightarrow> endOf a \<le> startOf b \<or> endOf b \<le> startOf a"
  by (auto simp add: disjointSpans_def hasSpan_def startOf_def endOf_def)

lemma sortedCitations_disjoint:
  "sorted_wrt disjointSpans (sortedCitations cs) \<longleftrightarrow> sorted_wrt disjointSpans cs"
  by (simp add: sortedCitations_def pairwise_arraySort [OF symp_disjointSpans])

subsection \<open>The form of the output for spans in descending order\<close>

lemma take_drop_split:
  "p \<le> q \<Longrightarrow> q \<le> r \<Longrightarrow>
   take (r - p) (drop p xs) = take (q - p) (drop p xs) @ take (r - q) (drop q xs)"
proof -
  assume pq: "p \<le> q" and qr: "q \<le> r"
  have "take (r - p) (drop p xs) = take ((q - p) + (r - q)) (drop p xs)"
    using pq qr by simp
  also have "\<dots> = take (q - p) (drop p xs) @ take (r - q) (drop (q - p) (drop p xs))"
    by (simp only: take_add)
  also have "drop (q - p) (drop p xs) = drop q xs"
    using pq by simp
  finally show ?thesis .
qed

lemma drop_split:
  "p \<le> q \<Longrightarrow> drop p xs = take (q - p) (drop p xs) @ drop q xs"
proof -
  assume pq: "p \<le> q"
  have "drop p xs = take (q - p) (drop p xs) @ drop (q - p) (drop p xs)"
    by (simp only: append_take_drop_id)
  also have "drop (q - p) (drop p xs) = drop q xs"
    using pq by simp
  finally show ?thesis .
qed

lemma layout_shift:
  assumes "p \<le> q" and "\<forall>ic \<in> set rest. q \<le> nat (startOf (snd ic))"
  shows "layout text p rest = take (q - p) (drop p text) @ layout text q rest"
proof (cases rest)
  case Nil
  then show ?thesis using drop_split [OF assms(1), of "text"] by simp
next
  case (Cons ic more)
  with assms(2) have "q \<le> nat (startOf (snd ic))" by simp
  from take_drop_split [OF assms(1) this, of "text"] Cons show ?thesis by simp
qed

lemma splice_prefix:
  assumes "s \<le> e" and "e \<le> length xs"
  shows "take s (take e xs @ ys) = take s xs"
    and "take (e - s) (drop s (take e xs @ ys)) = take (e - s) (drop s xs)"
    and "drop e (take e xs @ ys) = ys"
  using assms by (simp_all add: min_def drop_take)

lemma validIn_bounds:
  assumes "validIn text c"
  shows "nat (startOf c) < nat (endOf c)" and "nat (endOf c) \<le> length text"
    and "\<exists>sp. span c = Some sp \<and> spanApplies text sp"
    and "0 \<le> startOf c"
  using assms
  by (auto simp add: validIn_def startOf_def endOf_def spanApplies_def split: option.splits)

lemma spliceOf_layout:
  assumes valid: "validIn text c"
    and above: "\<forall>ic \<in> set rest. endOf c \<le> startOf (snd ic)"
  shows "highlightCitation (layout text 0 rest) (i, c) = layout text 0 ((i, c) # rest)"
proof -
  let ?s = "nat (startOf c)" and ?e = "nat (endOf c)"
  let ?Y = "layout text ?e rest"
  from validIn_bounds [OF valid] obtain sp where
    se: "?s < ?e" and el: "?e \<le> length text"
    and sp: "span c = Some sp" and app: "spanApplies text sp" and s0: "0 \<le> startOf c"
    by blast
  have sp_s: "span_start sp = startOf c" and sp_e: "span_end sp = endOf c"
    using sp by (simp_all add: startOf_def endOf_def)
  have "\<forall>ic \<in> set rest. ?e \<le> nat (startOf (snd ic))"
    using above by (auto intro: nat_mono)
  from layout_shift [OF _ this, of 0 "text"]
  have pc: "layout text 0 rest = take ?e text @ ?Y" by simp
  have len: "length (take ?e text) = ?e" using el by simp
  have app': "spanApplies (take ?e text @ ?Y) sp"
    using app el by (simp add: spanApplies_def sp_e)
  from se have se': "?s \<le> ?e" by (rule less_imp_le)
  note t = splice_prefix [OF se' el, of ?Y]
  have "highlightCitation (take ?e text @ ?Y) (i, c) = wrapSpan (take ?e text @ ?Y) i c sp"
    using app' by (simp add: highlightCitation_def sp)
  also have "\<dots> = take ?s text @ markOpen i @ take (?e - ?s) (drop ?s text) @ markClose c @ ?Y"
    by (simp only: wrapSpan_guarded [OF app'] sp_s sp_e t)
  finally show ?thesis
    by (simp add: pc)
qed

lemma highlightAll_layout:
  assumes "\<forall>ic \<in> set ics. validIn text (snd ic)"
    and "sorted_wrt (\<lambda>a b. endOf (snd b) \<le> startOf (snd a)) ics"
  shows "highlightAll text ics = layout text 0 (rev ics)"
  using assms
proof (induction ics rule: rev_induct)
  case Nil
  then show ?case by (simp add: highlightAll_def)
next
  case (snoc ic ics)
  from snoc.prems have v: "validIn text (snd ic)"
    and vs: "\<forall>x \<in> set ics. validIn text (snd x)"
    and srt: "sorted_wrt (\<lambda>a b. endOf (snd b) \<le> startOf (snd a)) ics"
    and above: "\<forall>x \<in> set (rev ics). endOf (snd ic) \<le> startOf (snd x)"
    by (auto simp add: sorted_wrt_append)
  have "highlightAll text (ics @ [ic]) = highlightCitation (highlightAll text ics) ic"
    by (simp add: highlightAll_def)
  also have "\<dots> = highlightCitation (layout text 0 (rev ics)) (fst ic, snd ic)"
    using snoc.IH [OF vs srt] by simp
  also have "\<dots> = layout text 0 ((fst ic, snd ic) # rev ics)"
    by (rule spliceOf_layout [OF v above])
  finally show ?case by simp
qed

subsection \<open>Which citations are wrapped\<close>

lemma length_highlightCitation: "length pc \<le> length (highlightCitation pc ic)"
proof (cases "validIn pc (snd ic)")
  case True
  then obtain sp where sp: "span (snd ic) = Some sp" and app: "spanApplies pc sp"
    by (auto simp add: validIn_def split: option.splits)
  from app have "nat (span_start sp) \<le> nat (span_end sp)" "nat (span_end sp) \<le> length pc"
    unfolding spanApplies_def by linarith+
  then show ?thesis
    by (simp add: highlightCitation_def sp app wrapSpan_guarded [OF app])
next
  case False
  then show ?thesis by (simp add: highlightCitation_cases)
qed

lemma length_highlightAll: "length pc \<le> length (highlightAll pc ics)"
proof (induction ics arbitrary: pc)
  case Nil
  then show ?case by (simp add: highlightAll_def)
next
  case (Cons ic ics)
  have "length pc \<le> length (highlightCitation pc ic)" by (rule length_highlightCitation)
  also have "\<dots> \<le> length (highlightAll (highlightCitation pc ic) ics)" by (rule Cons.IH)
  finally show ?case by (simp add: highlightAll_def)
qed

lemma validIn_longer: "validIn text c \<Longrightarrow> length text \<le> length pc \<Longrightarrow> validIn pc c"
  by (auto simp add: validIn_def spanApplies_def split: option.splits)

lemma highlightAll_Cons: "highlightAll pc (ic # ics) = highlightAll (highlightCitation pc ic) ics"
  by (simp add: highlightAll_def)

lemma highlightAll_append:
  "highlightAll pc (pre @ post) = highlightAll (highlightAll pc pre) post"
  by (simp add: highlightAll_def)

lemma inlineMarked_append:
  "inlineMarked pc (pre @ post) = inlineMarked pc pre @ inlineMarked (highlightAll pc pre) post"
proof (induction pre arbitrary: pc)
  case Nil
  then show ?case by (simp add: highlightAll_def)
next
  case (Cons ic pre)
  show ?case
  proof (cases "validIn pc (snd ic)")
    case True
    then show ?thesis by (simp add: Cons.IH highlightAll_Cons)
  next
    case False
    then have "highlightCitation pc ic = pc" by (simp add: highlightCitation_cases)
    with False show ?thesis by (simp add: Cons.IH highlightAll_Cons)
  qed
qed

lemma highlightAll_marked:
  "highlightAll pc ics = foldl spliceOf pc (inlineMarked pc ics)"
proof (induction ics arbitrary: pc)
  case Nil
  then show ?case by (simp add: highlightAll_def)
next
  case (Cons ic ics)
  show ?case
  proof (cases "validIn pc (snd ic)")
    case True
    then show ?thesis by (simp add: Cons.IH highlightAll_Cons highlightCitation_cases)
  next
    case False
    then show ?thesis by (simp add: Cons.IH highlightAll_Cons highlightCitation_cases)
  qed
qed

lemma valid_original_marked:
  assumes "ic \<in> set ics" and "validIn text (snd ic)" and "length text \<le> length pc"
  shows "ic \<in> set (inlineMarked pc ics)"
  using assms
proof (induction ics arbitrary: pc)
  case Nil
  then show ?case by simp
next
  case (Cons x ics)
  have grow: "length text \<le> length (highlightCitation pc x)"
    using Cons.prems(3) length_highlightCitation [of pc x] by linarith
  show ?case
  proof (cases "ic = x")
    case True
    with Cons.prems have "validIn pc (snd x)" by (auto intro: validIn_longer)
    with True show ?thesis by simp
  next
    case False
    with Cons.prems have mem: "ic \<in> set ics" by simp
    show ?thesis
    proof (cases "validIn pc (snd x)")
      case True
      with Cons.IH [OF mem Cons.prems(2) grow] show ?thesis by simp
    next
      case False
      with Cons.IH [OF mem Cons.prems(2) Cons.prems(3)] show ?thesis by simp
    qed
  qed
qed

subsection \<open>Valid, pairwise non-overlapping spans\<close>

lemma validIn_hasSpan: "validIn text c \<Longrightarrow> hasSpan c"
  by (auto simp add: validIn_def hasSpan_def split: option.splits)

lemma validIn_nonempty: "validIn text c \<Longrightarrow> startOf c < endOf c"
  by (auto simp add: validIn_def startOf_def endOf_def spanApplies_def split: option.splits)

lemma sortedCitations_separated:
  assumes spans: "\<forall>c \<in> set cs. hasSpan c"
    and disj: "sorted_wrt disjointSpans cs"
  shows "sorted_wrt (\<lambda>a b. endOf a \<le> startOf b \<or> endOf b \<le> startOf a) (sortedCitations cs)"
proof -
  from disj have "sorted_wrt disjointSpans (sortedCitations cs)"
    by (simp add: sortedCitations_disjoint)
  then show ?thesis
  proof (rule sorted_wrt_mono_rel [rotated])
    fix a b
    assume "a \<in> set (sortedCitations cs)" and "b \<in> set (sortedCitations cs)"
      and "disjointSpans a b"
    with spans show "endOf a \<le> startOf b \<or> endOf b \<le> startOf a"
      by (simp add: set_sortedCitations disjointSpans_spans)
  qed
qed

lemma sortedCitations_chain:
  assumes valid: "\<forall>c \<in> set cs. validIn text c"
    and disj: "sorted_wrt disjointSpans cs"
  shows "sorted_wrt (\<lambda>a b. endOf b \<le> startOf a) (sortedCitations cs)"
proof -
  let ?ds = "sortedCitations cs"
  from valid have spans: "\<forall>c \<in> set cs. hasSpan c" by (auto intro: validIn_hasSpan)
  then have desc: "sorted_wrt (\<lambda>a b. startOf b \<le> startOf a) ?ds"
    by (rule sortedCitations_descending)
  have sep: "sorted_wrt (\<lambda>a b. endOf a \<le> startOf b \<or> endOf b \<le> startOf a) ?ds"
    by (rule sortedCitations_separated [OF spans disj])
  have "endOf (?ds ! j) \<le> startOf (?ds ! i)" if "i < j" and "j < length ?ds" for i j
  proof -
    from that desc have d: "startOf (?ds ! j) \<le> startOf (?ds ! i)"
      by (simp add: sorted_wrt_iff_nth_less)
    from that sep
    have o: "endOf (?ds ! i) \<le> startOf (?ds ! j) \<or> endOf (?ds ! j) \<le> startOf (?ds ! i)"
      by (simp add: sorted_wrt_iff_nth_less)
    from that have "?ds ! i \<in> set cs"
      using nth_mem [of i ?ds] by (simp add: set_sortedCitations)
    with valid have "startOf (?ds ! i) < endOf (?ds ! i)" by (auto intro: validIn_nonempty)
    with d o show ?thesis by linarith
  qed
  then show ?thesis by (simp add: sorted_wrt_iff_nth_less)
qed

lemma processedContent_layout:
  assumes valid: "\<forall>c \<in> set cs. validIn text c"
    and disj: "sorted_wrt disjointSpans cs"
  shows "processedContent text cs = layout text 0 (rev (enumerate 0 (sortedCitations cs)))"
proof -
  let ?ics = "enumerate 0 (sortedCitations cs)"
  have "\<forall>ic \<in> set ?ics. validIn text (snd ic)"
  proof
    fix ic assume "ic \<in> set ?ics"
    then have "fst ic < length (sortedCitations cs)"
      and "sortedCitations cs ! fst ic = snd ic"
      by (simp_all add: in_set_enumerate_eq)
    then have "snd ic \<in> set (sortedCitations cs)"
      using nth_mem [of "fst ic" "sortedCitations cs"] by simp
    then show "validIn text (snd ic)"
      using valid by (simp add: set_sortedCitations)
  qed
  moreover have "sorted_wrt (\<lambda>a b. endOf (snd b) \<le> startOf (snd a)) ?ics"
  proof -
    have "sorted_wrt (\<lambda>a b. endOf b \<le> startOf a) (map snd ?ics)"
      using sortedCitations_chain [OF valid disj] by (simp only: map_snd_enumerate)
    then show ?thesis by (simp only: sorted_wrt_map)
  qed
  ultimately show ?thesis
    unfolding processedContent_def by (rule highlightAll_layout)
qed



lemma highlightCitation_valid:
  assumes "validIn pc c"
  shows "highlightCitation pc (i, c) =
           take (nat (startOf c)) pc @ markOpen i
           @ take (nat (endOf c) - nat (startOf c)) (drop (nat (startOf c)) pc)
           @ markClose c @ drop (nat (endOf c)) pc"
proof -
  from assms obtain sp where sp: "span c = Some sp" and app: "spanApplies pc sp"
    by (auto simp add: validIn_def split: option.splits)
  then show ?thesis
    by (simp add: highlightCitation_def wrapSpan_guarded [OF app] startOf_def endOf_def)
qed

subsection \<open>The test against the answer and the test against the processed text\<close>

lemma highlightAll_none_marked:
  "inlineMarked pc ics = [] \<Longrightarrow> highlightAll pc ics = pc"
  by (simp add: highlightAll_marked)

lemma marked_iff_valid_when_disjoint:
  assumes "sorted_wrt (\<lambda>a b. startOf (snd b) \<le> startOf (snd a)) ics"
    and "sorted_wrt (\<lambda>a b. endOf (snd a) \<le> startOf (snd b) \<or> endOf (snd b) \<le> startOf (snd a)) ics"
  shows "inlineMarked text ics = filter (\<lambda>ic. validIn text (snd ic)) ics"
  using assms
proof (induction ics rule: rev_induct)
  case Nil
  then show ?case by simp
next
  case (snoc ic pre)
  let ?pc = "highlightAll text pre"
  from snoc.prems have desc: "\<forall>a \<in> set pre. startOf (snd ic) \<le> startOf (snd a)"
    and disj: "\<forall>a \<in> set pre. endOf (snd a) \<le> startOf (snd ic) \<or> endOf (snd ic) \<le> startOf (snd a)"
    and IH: "inlineMarked text pre = filter (\<lambda>ic. validIn text (snd ic)) pre"
    using snoc.IH by (auto simp add: sorted_wrt_append)
  have same: "validIn ?pc (snd ic) \<longleftrightarrow> validIn text (snd ic)"
  proof
    assume "validIn text (snd ic)"
    then show "validIn ?pc (snd ic)"
      by (rule validIn_longer) (rule length_highlightAll)
  next
    assume v: "validIn ?pc (snd ic)"
    show "validIn text (snd ic)"
    proof (cases "inlineMarked text pre = []")
      case True
      then have "?pc = text" by (rule highlightAll_none_marked)
      with v show ?thesis by simp
    next
      case False
      then obtain a where a: "a \<in> set (inlineMarked text pre)"
        by (cases "inlineMarked text pre") auto
      with IH have apre: "a \<in> set pre" and av: "validIn text (snd a)" by auto
      from validIn_bounds [OF av] have ab: "startOf (snd a) < endOf (snd a)"
        "endOf (snd a) \<le> int (length text)"
        by (auto simp add: validIn_nonempty [OF av])
      from validIn_nonempty [OF v] have ne: "startOf (snd ic) < endOf (snd ic)" .
      from desc disj apre have "startOf (snd ic) \<le> startOf (snd a)"
        and "endOf (snd a) \<le> startOf (snd ic) \<or> endOf (snd ic) \<le> startOf (snd a)"
        by auto
      with ab have "endOf (snd ic) \<le> int (length text)" by linarith
      with v show ?thesis
        by (auto simp add: validIn_def spanApplies_def endOf_def split: option.splits)
    qed
  qed
  have "inlineMarked text (pre @ [ic]) =
          inlineMarked text pre @ (if validIn ?pc (snd ic) then [ic] else [])"
    by (simp add: inlineMarked_append)
  with IH same show ?case by simp
qed

lemma marked_iff_valid_sorted:
  assumes spans: "\<forall>c \<in> set cs. hasSpan c"
    and disj: "sorted_wrt disjointSpans cs"
  shows "inlineMarked text (enumerate 0 (sortedCitations cs)) =
           filter (\<lambda>ic. validIn text (snd ic)) (enumerate 0 (sortedCitations cs))"
proof -
  let ?ics = "enumerate 0 (sortedCitations cs)"
  have "sorted_wrt (\<lambda>a b. startOf b \<le> startOf a) (map snd ?ics)"
    using sortedCitations_descending [OF spans] by (simp only: map_snd_enumerate)
  then have d: "sorted_wrt (\<lambda>a b. startOf (snd b) \<le> startOf (snd a)) ?ics"
    by (simp only: sorted_wrt_map)
  have "sorted_wrt (\<lambda>a b. endOf a \<le> startOf b \<or> endOf b \<le> startOf a) (map snd ?ics)"
    using sortedCitations_separated [OF spans disj] by (simp only: map_snd_enumerate)
  then have s: "sorted_wrt (\<lambda>a b. endOf (snd a) \<le> startOf (snd b)
                                  \<or> endOf (snd b) \<le> startOf (snd a)) ?ics"
    by (simp only: sorted_wrt_map)
  show ?thesis by (rule marked_iff_valid_when_disjoint [OF d s])
qed

subsection \<open>A higher span spliced first leaves the text below it as it was\<close>

lemma substring_below_splice:
  assumes "0 \<le> a" and "a \<le> b" and "nat b \<le> s" and "s \<le> length xs"
  shows "substring (take s xs @ ys) a b = substring xs a b"
proof -
  from assms have n: "nat a \<le> nat b" by linarith
  from assms have bx: "b \<le> int (length xs)" and ax: "a \<le> int (length xs)" by linarith+
  from assms have bl: "b \<le> int (length (take s xs @ ys))"
    and al: "a \<le> int (length (take s xs @ ys))" by simp_all
  from assms have b0: "0 \<le> b" by linarith
  have c: "clampIndex (take s xs @ ys) a = nat a" "clampIndex (take s xs @ ys) b = nat b"
    "clampIndex xs a = nat a" "clampIndex xs b = nat b"
    by (simp_all only: clampIndex_inside [OF assms(1) al] clampIndex_inside [OF b0 bl]
        clampIndex_inside [OF assms(1) ax] clampIndex_inside [OF b0 bx])
  have "take (nat b - nat a) (drop (nat a) (take s xs @ ys))
        = take (nat b - nat a) (drop (nat a) xs)"
    using n assms(3,4) by (simp add: drop_take)
  then show ?thesis
    using n by (simp add: substring_def c Let_def min_def max_def del: append_assoc)
qed

lemma higher_first_keeps_lower:
  assumes hi: "validIn pc hi" and lo: "0 \<le> startOf lo" "startOf lo \<le> endOf lo"
    and below: "endOf lo \<le> startOf hi"
  shows "substring (highlightCitation pc (i, hi)) (startOf lo) (endOf lo)
           = substring pc (startOf lo) (endOf lo)"
proof -
  let ?s = "nat (startOf hi)"
  from validIn_bounds [OF hi] have b: "?s < nat (endOf hi)" "nat (endOf hi) \<le> length pc"
    by auto
  then have sl: "?s \<le> length pc" by linarith
  from below have bs: "nat (endOf lo) \<le> ?s" by linarith
  show ?thesis
    unfolding highlightCitation_valid [OF hi]
    by (rule substring_below_splice [OF lo bs sl])
qed

subsection \<open>A list with no neighbours out of order is left as it is\<close>

lemma runLength_whole:
  assumes "\<forall>i. Suc i < length (prev # rest) \<longrightarrow> 0 \<le> cmp ((prev # rest) ! Suc i) ((prev # rest) ! i)"
  shows "runLength cmp False prev rest = length rest"
  using assms
proof (induction rest arbitrary: prev)
  case Nil
  then show ?case by simp
next
  case (Cons cur rest)
  from Cons.prems [rule_format, of 0] have c: "0 \<le> cmp cur prev" by simp
  have "\<forall>i. Suc i < length (cur # rest) \<longrightarrow> 0 \<le> cmp ((cur # rest) ! Suc i) ((cur # rest) ! i)"
  proof (intro allI impI)
    fix i assume "Suc i < length (cur # rest)"
    with Cons.prems [rule_format, of "Suc i"]
    show "0 \<le> cmp ((cur # rest) ! Suc i) ((cur # rest) ! i)" by simp
  qed
  from Cons.IH [OF this] c show ?case by (simp add: Let_def)
qed

lemma arraySort_unchanged:
  assumes "\<forall>i. Suc i < length xs \<longrightarrow> 0 \<le> cmp (xs ! Suc i) (xs ! i)"
  shows "arraySort cmp xs = xs"
proof (cases xs)
  case Nil
  then show ?thesis by (simp add: arraySort_def countAndMakeRun_def)
next
  case (Cons x0 ys)
  show ?thesis
  proof (cases ys)
    case Nil
    with Cons show ?thesis by (simp add: arraySort_def countAndMakeRun_def)
  next
    case (Cons x1 more)
    with \<open>xs = x0 # ys\<close> have xs: "xs = x0 # x1 # more" by simp
    from assms [rule_format, of 0] xs have c: "\<not> cmp x1 x0 < 0" by simp
    have "\<forall>i. Suc i < length (x1 # more) \<longrightarrow> 0 \<le> cmp ((x1 # more) ! Suc i) ((x1 # more) ! i)"
    proof (intro allI impI)
      fix i assume "Suc i < length (x1 # more)"
      with assms [rule_format, of "Suc i"] xs
      show "0 \<le> cmp ((x1 # more) ! Suc i) ((x1 # more) ! i)" by simp
    qed
    from runLength_whole [OF this] have "runLength cmp False x1 more = length more" .
    with c show ?thesis by (simp add: arraySort_def countAndMakeRun_def xs Let_def)
  qed
qed

text \<open>Citations without span between citations with spans: the run ends before the
  last citation, which bisection then places in front of the first citation with a
  span, past the two citations without span that it meets.\<close>

lemma sortedCitations_mixed:
  "sortedCitations [citeN, citeN, citeA, citeN, citeB, citeFar]
     = [citeN, citeN, citeFar, citeA, citeN, citeB]"
  by code_simp

subsection \<open>Dropping tags and tooltips from the output string\<close>

lemma stripFrom_text:
  "cleanText t \<Longrightarrow> stripFrom InText (t @ rest) = t @ stripFrom InText rest"
  by (induction t) (auto simp add: cleanText_def)

lemma stripFrom_tag:
  "CHR ''>'' \<notin> set t \<Longrightarrow> stripFrom InTag (t @ CHR ''>'' # rest) = stripFrom InText rest"
  by (induction t) auto

lemma digits_chars: "set (digits n) \<subseteq> set ''0123456789''"
proof (induction n rule: digits.induct)
  case (1 n)
  have d: "''0123456789'' ! k \<in> set ''0123456789''" if "k < 10" for k
    using that nth_mem [of k "''0123456789''"] by simp
  show ?case
  proof (cases "n < 10")
    case True
    then show ?thesis using d [of n] by (simp add: digits.simps [of n])
  next
    case False
    have "n mod 10 < 10" by simp
    with 1 False d [of "n mod 10"] show ?thesis
      by (simp add: digits.simps [of n])
  qed
qed

lemma stripFrom_markOpen: "stripFrom InText (markOpen i @ rest) = stripFrom InText rest"
proof -
  have g: "CHR ''>'' \<notin> set (digits i)"
    using digits_chars [of i] by auto
  have "CHR ''>'' \<notin> set (''span class=\"highlighted-text\" data-citation-id=\"'' @ digits i @ ''\"'')"
    using g by simp
  from stripFrom_tag [OF this, of rest]
  show ?thesis
    by (simp add: markOpen_def tooltipOpen_def)
qed

lemma noClosing_weaken: "noClosing True u \<Longrightarrow> noClosing False u"
  by (cases u) simp_all

lemma noClosing_clean: "cleanText t \<Longrightarrow> noClosing False (t @ u) = noClosing False u"
  by (induction t) (auto simp add: cleanText_def)

lemma stripFrom_tooltip:
  "noClosing False u \<Longrightarrow> stripFrom InTooltip (u @ markEnd @ rest) = stripFrom InText rest"
proof (induction u)
  case Nil
  show ?case by (simp add: markEnd_def)
next
  case (Cons c u)
  from Cons.prems have nc: "noClosing (c = CHR ''<'') u" by simp
  then have nf: "noClosing False u"
    by (cases "c = CHR ''<''") (auto intro: noClosing_weaken)
  have "take (length markEnd) (c # u @ markEnd @ rest) \<noteq> markEnd"
  proof (cases "c = CHR ''<''")
    case False
    then show ?thesis by (simp add: markEnd_def)
  next
    case True
    with nc obtain d u' where u: "u = d # u'" and d: "d \<noteq> CHR ''/''"
      by (cases u) auto
    then show ?thesis by (simp add: markEnd_def)
  qed
  with Cons.IH [OF nf] show ?case by simp
qed

lemma splitOn_nonempty: "splitOn sep s \<noteq> []"
  by (induction s) (auto split: list.splits)

lemma splitOn_pieces: "p \<in> set (splitOn sep s) \<Longrightarrow> set p \<subseteq> set s"
proof (induction s arbitrary: p)
  case Nil
  then show ?case by simp
next
  case (Cons c s)
  show ?case
  proof (cases "c = sep")
    case True
    with Cons show ?thesis by auto
  next
    case False
    obtain w ws where sp: "splitOn sep s = w # ws"
      using splitOn_nonempty [of sep s] by (cases "splitOn sep s") auto
    with False Cons.prems have "p = c # w \<or> p \<in> set ws" by simp
    then show ?thesis
    proof
      assume "p = c # w"
      moreover have "set w \<subseteq> set s" using Cons.IH [of w] sp by simp
      ultimately show ?thesis by auto
    next
      assume "p \<in> set ws"
      then have "set p \<subseteq> set s" using Cons.IH [of p] sp by simp
      then show ?thesis by auto
    qed
  qed
qed

lemma cleanText_sourceFile: "cleanText s \<Longrightarrow> cleanText (sourceFile s)"
  using splitOn_pieces [of "sourceFile s" "CHR ''/''" s] splitOn_nonempty [of "CHR ''/''" s]
  by (auto simp add: cleanText_def sourceFile_def)

lemma cleanText_excerpt: "cleanText s \<Longrightarrow> cleanText (substring s 0 100)"
  by (auto simp add: cleanText_def substring_def Let_def dest!: in_set_takeD in_set_dropD)

lemma stripFrom_markClose:
  assumes "cleanCitation c"
  shows "stripFrom InText (markClose c @ rest) = stripFrom InText rest"
proof -
  let ?u = \<open>''span class="citation-tooltip">'' @ tooltipContent c\<close>
  from assms have f: "cleanText (sourceFile (source c))"
    and e: "cleanText (substring (content c) 0 100)"
    by (simp_all add: cleanCitation_def cleanText_sourceFile cleanText_excerpt)
  have "noClosing False (tooltipContent c)"
    by (simp add: tooltipContent_def noClosing_clean [OF f] noClosing_clean [OF e])
  then have "noClosing False ?u" by simp
  from stripFrom_tooltip [OF this, of rest]
  show ?thesis
    by (simp add: markClose_def tooltipOpen_def markEnd_def)
qed

lemma cleanText_piece: "cleanText s \<Longrightarrow> cleanText (take n (drop m s))"
  by (auto simp add: cleanText_def dest!: in_set_takeD in_set_dropD)

lemma stripFrom_layout:
  assumes "cleanText text"
    and "\<forall>ic \<in> set asc. cleanCitation (snd ic) \<and> validIn text (snd ic)"
    and "sorted_wrt (\<lambda>a b. endOf (snd a) \<le> startOf (snd b)) asc"
    and "\<forall>ic \<in> set asc. pos \<le> nat (startOf (snd ic))"
  shows "stripFrom InText (layout text pos asc) = drop pos text"
  using assms(2-4)
proof (induction asc arbitrary: pos)
  case Nil
  have "cleanText (drop pos text)"
    using assms(1) by (auto simp add: cleanText_def dest: in_set_dropD)
  from stripFrom_text [OF this, of "[]"] show ?case by simp
next
  case (Cons ic rest)
  let ?s = "nat (startOf (snd ic))" and ?e = "nat (endOf (snd ic))"
  let ?A = "take (?s - pos) (drop pos text)" and ?B = "take (?e - ?s) (drop ?s text)"
  from Cons.prems have clean: "cleanCitation (snd ic)" and valid: "validIn text (snd ic)"
    and ps: "pos \<le> ?s" by simp_all
  from validIn_bounds(1) [OF valid] have se: "?s \<le> ?e" by (rule less_imp_le)
  have next_pos: "\<forall>x \<in> set rest. ?e \<le> nat (startOf (snd x))"
    using Cons.prems(2) by (auto intro: nat_mono)
  from Cons.prems have rest: "\<forall>x \<in> set rest. cleanCitation (snd x) \<and> validIn text (snd x)"
    and chain: "sorted_wrt (\<lambda>a b. endOf (snd a) \<le> startOf (snd b)) rest"
    by simp_all
  have tail: "stripFrom InText (layout text ?e rest) = drop ?e text"
    by (rule Cons.IH [OF rest chain next_pos])
  have A: "cleanText ?A" and B: "cleanText ?B"
    using assms(1) by (simp_all add: cleanText_piece)
  have "stripFrom InText (layout text pos (ic # rest)) =
          stripFrom InText (?A @ markOpen (fst ic) @ ?B @ markClose (snd ic) @ layout text ?e rest)"
    by simp
  also have "\<dots> = ?A @ stripFrom InText (markOpen (fst ic) @ ?B @ markClose (snd ic) @ layout text ?e rest)"
    by (rule stripFrom_text [OF A])
  also have "\<dots> = ?A @ stripFrom InText (?B @ markClose (snd ic) @ layout text ?e rest)"
    by (simp only: stripFrom_markOpen)
  also have "\<dots> = ?A @ ?B @ stripFrom InText (markClose (snd ic) @ layout text ?e rest)"
    by (simp only: stripFrom_text [OF B])
  also have "\<dots> = ?A @ ?B @ drop ?e text"
    by (simp only: stripFrom_markClose [OF clean] tail)
  also have "\<dots> = ?A @ drop ?s text"
    using drop_split [OF se, of "text"] by simp
  also have "\<dots> = drop pos text"
    using drop_split [OF ps, of "text"] by simp
  finally show ?case .
qed

lemma stripTags_processedContent:
  assumes clean: "cleanText text" "\<forall>c \<in> set cs. cleanCitation c"
    and valid: "\<forall>c \<in> set cs. validIn text c"
    and disj: "sorted_wrt disjointSpans cs"
  shows "stripTags (processedContent text cs) = text"
proof -
  let ?asc = "rev (enumerate 0 (sortedCitations cs))"
  have mem: "snd ic \<in> set cs" if "ic \<in> set ?asc" for ic
  proof -
    from that have "fst ic < length (sortedCitations cs)"
      and "sortedCitations cs ! fst ic = snd ic"
      by (simp_all add: in_set_enumerate_eq)
    then have "snd ic \<in> set (sortedCitations cs)"
      using nth_mem [of "fst ic" "sortedCitations cs"] by simp
    then show ?thesis by (simp add: set_sortedCitations)
  qed
  have a: "\<forall>ic \<in> set ?asc. cleanCitation (snd ic) \<and> validIn text (snd ic)"
    using mem clean(2) valid by blast
  have "sorted_wrt (\<lambda>a b. endOf b \<le> startOf a) (map snd (enumerate 0 (sortedCitations cs)))"
    using sortedCitations_chain [OF valid disj] by (simp only: map_snd_enumerate)
  then have "sorted_wrt (\<lambda>a b. endOf (snd b) \<le> startOf (snd a)) (enumerate 0 (sortedCitations cs))"
    by (simp only: sorted_wrt_map)
  then have b: "sorted_wrt (\<lambda>a b. endOf (snd a) \<le> startOf (snd b)) ?asc"
    by (simp only: sorted_wrt_rev)
  have c: "\<forall>ic \<in> set ?asc. 0 \<le> nat (startOf (snd ic))" by simp
  have "stripFrom InText (layout text 0 ?asc) = drop 0 text"
    by (rule stripFrom_layout [OF clean(1) a b c])
  then show ?thesis
    by (simp add: stripTags_def processedContent_layout [OF valid disj])
qed

section \<open>The claims about the highlighter\<close>

text \<open>
  C1. The round trip fails on a list the claim covers. On a text of 20 characters the
  citations with spans (2, 5) and (10, 14) are valid and do not overlap, and two
  citations without span stand between them. The sort leaves the list in input order,
  the span at 2 is spliced first, the splice for (10, 14) cuts the opening tag of the
  first marker, and what the string reads once tags and tooltips are dropped is not
  the answer. With the same two spans and no citation without span in the list, it is.
\<close>

theorem round_trip_fails_on_interleaved:
  \<open>span citeA = Some \<lparr>span_start = 2, span_end = 5\<rparr>
   \<and> span citeB = Some \<lparr>span_start = 10, span_end = 14\<rparr>
   \<and> span citeN = None
   \<and> length twenty = 20
   \<and> spanApplies twenty \<lparr>span_start = 2, span_end = 5\<rparr>
   \<and> spanApplies twenty \<lparr>span_start = 10, span_end = 14\<rparr>
   \<and> sorted_wrt disjointSpans [citeA, citeN, citeN, citeB]
   \<and> processedContent twenty [citeA, citeN, citeN, citeB]
       = ''01<span cl<span class="highlighted-text" data-citation-id="3">ass=<span class="citation-tooltip">Source: b.txt<br>Excerpt: beta...</span></span>"highlighted-text" data-citation-id="0">234<span class="citation-tooltip">Source: a.txt<br>Excerpt: alpha...</span></span>56789abcdefghij''
   \<and> stripTags (processedContent twenty [citeA, citeN, citeN, citeB])
       = ''01ass="highlighted-text" data-citation-id="0">23456789abcdefghij''
   \<and> stripTags (processedContent twenty [citeA, citeN, citeN, citeB]) \<noteq> twenty
   \<and> stripTags (processedContent twenty [citeA, citeB]) = twenty\<close>
  by code_simp

text \<open>
  C2, as stated, fails: the test is made against the text as processed so far, which
  earlier splices have lengthened. On \<^verbatim>\<open>hello\<close> the span (0, 50) fails the test against
  the answer text, and is wrapped all the same once the span (0, 5) has been.
\<close>

theorem overlong_span_marked:
  \<open>\<not> (0 \<le> span_start \<lparr>span_start = 0, span_end = 50\<rparr>
        \<and> span_start \<lparr>span_start = 0, span_end = 50\<rparr> < span_end \<lparr>span_start = 0, span_end = 50\<rparr>
        \<and> span_end \<lparr>span_start = 0, span_end = 50\<rparr> \<le> int (length ''hello''))
   \<and> span citeLong = Some \<lparr>span_start = 0, span_end = 50\<rparr>
   \<and> inlineMarked ''hello'' (enumerate 0 (sortedCitations [citeWhole, citeLong]))
       = [(0, citeWhole), (1, citeLong)]
   \<and> processedContent ''hello'' [citeWhole, citeLong]
       = ''<span class="highlighted-text" data-citation-id="1"><span class="highlighted-text" data-citation-id="0<span class="citation-tooltip">Source: l.txt<br>Excerpt: long...</span></span>">hello<span class="citation-tooltip">Source: w.txt<br>Excerpt: whole...</span></span>''\<close>
  by code_simp

text \<open>
  C2, amended. A citation is wrapped inline exactly when it carries a span that passes
  the test against the text as processed when its turn comes, and that text is never
  shorter than the answer text. So every citation whose span passes the test against
  the answer text is wrapped; the output is the result of the splices of the wrapped
  citations alone, the others contributing nothing inline; and when every citation has
  a span and the spans do not overlap pairwise, the wrapped citations are exactly those
  whose span passes the test against the answer text.
\<close>

theorem span_test_uses_processed_text:
  "inlineMarked text (pre @ ic # post) =
     inlineMarked text pre
     @ (if validIn (highlightAll text pre) (snd ic) then [ic] else [])
     @ inlineMarked (highlightAll text (pre @ [ic])) post
   \<and> length text \<le> length (highlightAll text pre)
   \<and> (\<forall>x \<in> set ics. validIn text (snd x) \<longrightarrow> x \<in> set (inlineMarked text ics))
   \<and> highlightAll text ics = foldl spliceOf text (inlineMarked text ics)
   \<and> ((\<forall>c \<in> set cs. hasSpan c) \<and> sorted_wrt disjointSpans cs \<longrightarrow>
        inlineMarked text (enumerate 0 (sortedCitations cs)) =
          filter (\<lambda>ic. validIn text (snd ic)) (enumerate 0 (sortedCitations cs)))"
proof (intro conjI ballI impI)
  have "inlineMarked text (pre @ ic # post) =
          inlineMarked text pre @ inlineMarked (highlightAll text pre) (ic # post)"
    by (rule inlineMarked_append)
  also have "inlineMarked (highlightAll text pre) (ic # post) =
      (if validIn (highlightAll text pre) (snd ic) then [ic] else [])
      @ inlineMarked (highlightAll text (pre @ [ic])) post"
    by (simp add: highlightAll_append highlightAll_Cons highlightAll_def highlightCitation_cases)
  finally show "inlineMarked text (pre @ ic # post) =
     inlineMarked text pre
     @ (if validIn (highlightAll text pre) (snd ic) then [ic] else [])
     @ inlineMarked (highlightAll text (pre @ [ic])) post" .
  show "length text \<le> length (highlightAll text pre)" by (rule length_highlightAll)
  show "highlightAll text ics = foldl spliceOf text (inlineMarked text ics)"
    by (rule highlightAll_marked)
next
  fix x assume "x \<in> set ics" and "validIn text (snd x)"
  then show "x \<in> set (inlineMarked text ics)"
    by (rule valid_original_marked) simp
next
  assume "(\<forall>c \<in> set cs. hasSpan c) \<and> sorted_wrt disjointSpans cs"
  then show "inlineMarked text (enumerate 0 (sortedCitations cs)) =
          filter (\<lambda>ic. validIn text (snd ic)) (enumerate 0 (sortedCitations cs))"
    by (intro marked_iff_valid_sorted) simp_all
qed

theorem span_test_uses_processed_text_witness:
  "validIn ''hello'' citeWhole
   \<and> (0, citeWhole) \<in> set (inlineMarked ''hello'' [(0, citeWhole), (1, citeLong)])
   \<and> hasSpan citeFar \<and> hasSpan citeB \<and> hasSpan citeA \<and> disjointSpans citeA citeFar
   \<and> disjointSpans citeA citeB \<and> disjointSpans citeFar citeB
   \<and> inlineMarked twenty (enumerate 0 (sortedCitations [citeA, citeFar, citeB]))
       = [(1, citeB), (2, citeA)]"
proof -
  have v: "validIn ''hello'' citeWhole" by code_simp
  have s: "hasSpan citeFar" "hasSpan citeB" "hasSpan citeA"
    by (simp_all add: hasSpan_def citeFar_def citeA_def citeB_def)
  have d: "disjointSpans citeA citeFar" "disjointSpans citeA citeB" "disjointSpans citeFar citeB"
    by (simp_all add: disjointSpans_def citeFar_def citeA_def citeB_def)
  have f: "filter (\<lambda>ic. validIn twenty (snd ic)) (enumerate 0 (sortedCitations [citeA, citeFar, citeB]))
           = [(1, citeB), (2, citeA)]"
    by code_simp
  from span_test_uses_processed_text
         [of "''hello''" "[]" "(0, citeWhole)" "[]" "[(0, citeWhole), (1, citeLong)]"
             "[citeA, citeFar, citeB]"]
  have "(0, citeWhole) \<in> set (inlineMarked ''hello'' [(0, citeWhole), (1, citeLong)])"
    using v by simp
  moreover
  from span_test_uses_processed_text
         [of twenty "[]" "(0, citeWhole)" "[]" "[]" "[citeA, citeFar, citeB]"]
  have "inlineMarked twenty (enumerate 0 (sortedCitations [citeA, citeFar, citeB]))
          = [(1, citeB), (2, citeA)]"
    using s d by (simp only: f) simp
  ultimately show ?thesis using v s d by simp
qed

text \<open>
  C3. The comparator answers 0 as soon as one of the two citations has no span, so a
  list in which citations without span stand between two citations with spans has no
  neighbours out of order and the sort leaves it as it is. On a text of 20 characters
  the list (2, 5), no span, no span, (10, 14) is processed in that order: the span at
  2 is spliced first, and the splice for (10, 14) then lands inside the opening tag
  of the first marker. What is left once tags and tooltips are dropped is no longer the
  answer. The merge sort leaves the list in the same order.
\<close>

theorem interleaved_citations_keep_input_order:
  \<open>sortedCitations [citeA, citeN, citeN, citeB] = [citeA, citeN, citeN, citeB]
   \<and> inlineMarked twenty (enumerate 0 (sortedCitations [citeA, citeN, citeN, citeB]))
       = [(0, citeA), (3, citeB)]
   \<and> processedContent twenty [citeA, citeN, citeN, citeB]
       = ''01<span cl<span class="highlighted-text" data-citation-id="3">ass=<span class="citation-tooltip">Source: b.txt<br>Excerpt: beta...</span></span>"highlighted-text" data-citation-id="0">234<span class="citation-tooltip">Source: a.txt<br>Excerpt: alpha...</span></span>56789abcdefghij''
   \<and> substring (highlightCitation twenty (0, citeA)) 10 14 = ''ass=''
   \<and> substring twenty 10 14 = ''abcd''
   \<and> stripTags (processedContent twenty [citeA, citeN, citeN, citeB])
       = ''01ass="highlighted-text" data-citation-id="0">23456789abcdefghij''
   \<and> mergeSort compareCitations [citeA, citeN, citeN, citeB] = [citeA, citeN, citeN, citeB]\<close>
  by code_simp

text \<open>
  C5. A citation whose span has \<open>start = end\<close> is never spliced: its callback returns
  the text it was given, so the output is the result of the callbacks of the other
  citations alone, each under its index in the sorted array; and its line is in the
  footer at its own position of the input list, under its number.
\<close>

theorem degenerate_span_footer_only:
  assumes "degenerateSpan c"
  shows "highlightCitation pc (i, c) = pc
    \<and> processedContent text cs =
        highlightAll text
          (filter (\<lambda>ic. \<not> degenerateSpan (snd ic)) (enumerate 0 (sortedCitations cs)))
    \<and> (k < length cs \<and> cs ! k = c \<longrightarrow>
         renderCitations text (Some cs) = Highlighted (processedContent text cs) (citationsContainer cs)
         \<and> citationsContainer cs =
             ''<strong>Sources:</strong><br>''
             @ concat (map footerLine (enumerate 0 (take k cs)))
             @ (''['' @ digits (k + 1) @ ''] '' @ sourceFile (source c) @ ''<br>'')
             @ concat (map footerLine (enumerate (Suc k) (drop (Suc k) cs))))"
proof (intro conjI impI)
  show "highlightCitation pc (i, c) = pc"
    by (rule highlightCitation_degenerate [OF assms])
  show "processedContent text cs =
        highlightAll text
          (filter (\<lambda>ic. \<not> degenerateSpan (snd ic)) (enumerate 0 (sortedCitations cs)))"
    by (simp add: processedContent_def highlightAll_skips_degenerate)
next
  assume k: "k < length cs \<and> cs ! k = c"
  then show "renderCitations text (Some cs) = Highlighted (processedContent text cs) (citationsContainer cs)"
    by (auto simp add: renderCitations_def)
  from k have "enumerate 0 cs =
       enumerate 0 (take k cs) @ (k, c) # enumerate (Suc k) (drop (Suc k) cs)"
    using enumerate_split [of k cs 0] by simp
  then show "citationsContainer cs =
             ''<strong>Sources:</strong><br>''
             @ concat (map footerLine (enumerate 0 (take k cs)))
             @ (''['' @ digits (k + 1) @ ''] '' @ sourceFile (source c) @ ''<br>'')
             @ concat (map footerLine (enumerate (Suc k) (drop (Suc k) cs)))"
    by (simp add: citationsContainer_lines footerLine_def)
qed

theorem degenerate_span_footer_only_witness:
  \<open>degenerateSpan citeEmpty
   \<and> processedContent twenty [citeA, citeEmpty]
       = ''01<span class="highlighted-text" data-citation-id="1">234<span class="citation-tooltip">Source: a.txt<br>Excerpt: alpha...</span></span>56789abcdefghij''
   \<and> citationsContainer [citeA, citeEmpty]
       = ''<strong>Sources:</strong><br>[1] a.txt<br>[2] e.txt<br>''\<close>
proof -
  have d: "degenerateSpan citeEmpty" by (simp add: degenerateSpan_def citeEmpty_def)
  have k: "1 < length [citeA, citeEmpty] \<and> [citeA, citeEmpty] ! 1 = citeEmpty" by simp
  have f: \<open>highlightAll twenty
             (filter (\<lambda>ic. \<not> degenerateSpan (snd ic)) (enumerate 0 (sortedCitations [citeA, citeEmpty])))
           = ''01<span class="highlighted-text" data-citation-id="1">234<span class="citation-tooltip">Source: a.txt<br>Excerpt: alpha...</span></span>56789abcdefghij''\<close>
    by code_simp
  have c: \<open>''<strong>Sources:</strong><br>''
             @ concat (map footerLine (enumerate 0 (take 1 [citeA, citeEmpty])))
             @ (''['' @ digits (1 + 1) @ ''] '' @ sourceFile (source citeEmpty) @ ''<br>'')
             @ concat (map footerLine (enumerate (Suc 1) (drop (Suc 1) [citeA, citeEmpty])))
           = ''<strong>Sources:</strong><br>[1] a.txt<br>[2] e.txt<br>''\<close>
    by code_simp
  from degenerate_span_footer_only [OF d, of twenty 0 twenty "[citeA, citeEmpty]" 1] k
  have "processedContent twenty [citeA, citeEmpty] =
          highlightAll twenty
            (filter (\<lambda>ic. \<not> degenerateSpan (snd ic)) (enumerate 0 (sortedCitations [citeA, citeEmpty])))"
    and "citationsContainer [citeA, citeEmpty] =
             ''<strong>Sources:</strong><br>''
             @ concat (map footerLine (enumerate 0 (take 1 [citeA, citeEmpty])))
             @ (''['' @ digits (1 + 1) @ ''] '' @ sourceFile (source citeEmpty) @ ''<br>'')
             @ concat (map footerLine (enumerate (Suc 1) (drop (Suc 1) [citeA, citeEmpty])))"
    by blast+
  then show ?thesis using d by (simp only: f c simp_thms)
qed

text \<open>
  C6. For a non-empty list the message holds the processed text followed by the
  footer, whose lines are those of the citations in the order of the input list,
  with or without span, line \<open>i\<close> (from 0) under the number \<open>i + 1\<close>. For the empty
  list, as for a missing one, the message holds the answer as plain text and no
  footer.
\<close>

theorem footer_lists_every_citation:
  \<open>(cs \<noteq> [] \<longrightarrow>
      renderCitations text (Some cs) =
        Highlighted (processedContent text cs)
          (''<strong>Sources:</strong><br>''
            @ concat (map (\<lambda>i. ''['' @ digits (i + 1) @ ''] ''
                                @ sourceFile (source (cs ! i)) @ ''<br>'')
                       [0..<length cs])))
   \<and> renderCitations text (Some []) = TextContent text
   \<and> renderCitations text None = TextContent text\<close>
  by (simp add: renderCitations_def citationsContainer_lines map_enumerate_upt footerLine_def)

theorem footer_lists_every_citation_witness:
  \<open>[citeB, citeN, citeA] \<noteq> []
   \<and> renderCitations twenty (Some [citeB, citeN, citeA]) =
       Highlighted (processedContent twenty [citeB, citeN, citeA])
         ''<strong>Sources:</strong><br>[1] b.txt<br>[2] n.txt<br>[3] a.txt<br>''
   \<and> renderCitations twenty (Some []) = TextContent twenty\<close>
proof -
  have n: "[citeB, citeN, citeA] \<noteq> []" by simp
  have c: \<open>''<strong>Sources:</strong><br>''
            @ concat (map (\<lambda>i. ''['' @ digits (i + 1) @ ''] ''
                                @ sourceFile (source ([citeB, citeN, citeA] ! i)) @ ''<br>'')
                       [0..<length [citeB, citeN, citeA]])
          = ''<strong>Sources:</strong><br>[1] b.txt<br>[2] n.txt<br>[3] a.txt<br>''\<close>
    by code_simp
  from footer_lists_every_citation [of "[citeB, citeN, citeA]" twenty] n
  show ?thesis by (simp only: c simp_thms)
qed



end
